theory Spec2Isabelle
  imports Main "HOL-Library.Word" "HOL-Library.Multiset"
begin

section \<open>Snapshot file names (internal/pruner/pruner.go)\<close>

text \<open>
  Slots are Go \<^verbatim>\<open>uint64\<close> values. Go strings are byte sequences, as HOL strings are.
\<close>

type_synonym uint64 = "64 word"

definition is_digit :: "char \<Rightarrow> bool" where
  "is_digit c \<longleftrightarrow> c \<in> set ''0123456789''"

definition is_alnum :: "char \<Rightarrow> bool" where
  "is_alnum c \<longleftrightarrow>
     c \<in> set ''ABCDEFGHIJKLMNOPQRSTUVWXYZabcdefghijklmnopqrstuvwxyz0123456789''"

fun strip_prefix :: "string \<Rightarrow> string \<Rightarrow> string option" where
  "strip_prefix [] s = Some s"
| "strip_prefix (p # ps) [] = None"
| "strip_prefix (p # ps) (c # cs) = (if p = c then strip_prefix ps cs else None)"

text \<open>
  The pieces of the two patterns. A greedy class repetition followed by a character
  outside the class (\<^verbatim>\<open>(\d+)-\<close>, \<^verbatim>\<open>[A-Za-z0-9]+\.\<close>) can only match the
  maximal run, so each matcher returns the one possible split: the text matched and the
  rest of the input.
\<close>

definition match_digits :: "string \<Rightarrow> (string \<times> string) option" where
  "match_digits s =
     (if takeWhile is_digit s = [] then None
      else Some (takeWhile is_digit s, dropWhile is_digit s))"

definition match_alnums :: "string \<Rightarrow> string option" where
  "match_alnums s =
     (if takeWhile is_alnum s = [] then None else Some (dropWhile is_alnum s))"

definition match_ext :: "string \<Rightarrow> (string \<times> string) option" where
  "match_ext s =
     (case strip_prefix ''zst'' s of Some r \<Rightarrow> Some (''zst'', r)
      | None \<Rightarrow>
     (case strip_prefix ''bz2'' s of Some r \<Rightarrow> Some (''bz2'', r)
      | None \<Rightarrow>
     (case strip_prefix ''gz'' s of Some r \<Rightarrow> Some (''gz'', r)
      | None \<Rightarrow> None)))"

text \<open>
  \<^verbatim>\<open>snapshot-(\d+)-[A-Za-z0-9]+\.tar\.(zst|bz2|gz)\<close> matched at the start of the
  input: the submatches (slot digits, extension) and the unmatched rest.
\<close>

definition match_full_at :: "string \<Rightarrow> (string list \<times> string) option" where
  "match_full_at s =
     Option.bind (strip_prefix ''snapshot-'' s) (\<lambda>s1.
     Option.bind (match_digits s1) (\<lambda>(slot, s2).
     Option.bind (strip_prefix ''-'' s2) (\<lambda>s3.
     Option.bind (match_alnums s3) (\<lambda>s4.
     Option.bind (strip_prefix ''.tar.'' s4) (\<lambda>s5.
     Option.bind (match_ext s5) (\<lambda>(ext, rest).
     Some ([slot, ext], rest)))))))"

text \<open>
  \<^verbatim>\<open>incremental-snapshot-(\d+)-(\d+)-[A-Za-z0-9]+\.tar\.(zst|bz2|gz)\<close> matched at
  the start of the input: the submatches (base slot digits, slot digits, extension).
\<close>

definition match_incremental_at :: "string \<Rightarrow> (string list \<times> string) option" where
  "match_incremental_at s =
     Option.bind (strip_prefix ''incremental-snapshot-'' s) (\<lambda>s1.
     Option.bind (match_digits s1) (\<lambda>(base, s2).
     Option.bind (strip_prefix ''-'' s2) (\<lambda>s3.
     Option.bind (match_digits s3) (\<lambda>(slot, s4).
     Option.bind (strip_prefix ''-'' s4) (\<lambda>s5.
     Option.bind (match_alnums s5) (\<lambda>s6.
     Option.bind (strip_prefix ''.tar.'' s6) (\<lambda>s7.
     Option.bind (match_ext s7) (\<lambda>(ext, rest).
     Some ([base, slot, ext], rest)))))))))"

text \<open>
  The pruner's patterns are anchored (\<^verbatim>\<open>^...$\<close>): the match starts at the first
  character and leaves nothing. \<^verbatim>\<open>FindStringSubmatch\<close> returns the whole match
  followed by the submatches, or nil.
\<close>

definition pruner_fullSnapshotRe :: "string \<Rightarrow> string list option" where
  "pruner_fullSnapshotRe name =
     (case match_full_at name of
        Some (groups, rest) \<Rightarrow> if rest = [] then Some (name # groups) else None
      | None \<Rightarrow> None)"

definition pruner_incrementalSnapshotRe :: "string \<Rightarrow> string list option" where
  "pruner_incrementalSnapshotRe name =
     (case match_incremental_at name of
        Some (groups, rest) \<Rightarrow> if rest = [] then Some (name # groups) else None
      | None \<Rightarrow> None)"

definition has_suffix :: "string \<Rightarrow> string \<Rightarrow> bool" where
  "has_suffix suf s \<longleftrightarrow>
     length suf \<le> length s \<and> drop (length s - length suf) s = suf"

text \<open>\<^verbatim>\<open>tempFileRe = \.(tmp|partial)$\<close>, used through \<^verbatim>\<open>MatchString\<close>.\<close>

definition tempFileRe :: "string \<Rightarrow> bool" where
  "tempFileRe name \<longleftrightarrow> has_suffix ''.tmp'' name \<or> has_suffix ''.partial'' name"

text \<open>
  \<^verbatim>\<open>strconv.ParseUint(s, 10, 64)\<close> with the error dropped, as every caller does
  (\<^verbatim>\<open>slot, _ := ...\<close>): on a digit string whose value does not fit 64 bits Go returns
  the largest \<^verbatim>\<open>uint64\<close> together with the range error.
\<close>

definition digit_value :: "char \<Rightarrow> int" where
  "digit_value c = of_char c - 48"

definition ParseUint :: "string \<Rightarrow> uint64" where
  "ParseUint s =
     (let v = foldl (\<lambda>acc c. 10 * acc + digit_value c) (0 :: int) s
      in if v \<le> 18446744073709551615 then word_of_int v else 18446744073709551615)"

section \<open>Local inventory (internal/pruner/pruner.go)\<close>

record SnapshotFile =
  Path :: string
  Slot :: uint64
  BaseSlot :: uint64
  IsFull :: bool

text \<open>
  What \<^verbatim>\<open>os.ReadDir\<close> returns for every entry of the snapshot directory: its name
  and whether it is a directory. The state of the snapshot directory is its listing, or
  \<open>None\<close> when the directory cannot be read.
\<close>

record DirEntry =
  Name :: string
  IsDir :: bool

type_synonym dir_state = "DirEntry list option"

text \<open>
  Go errors: an error of the environment or one made by \<^verbatim>\<open>fmt.Errorf\<close> from a message
  (\<open>Err\<close>), and an error wrapping another one with \<^verbatim>\<open>%w\<close> (\<open>Wrapped\<close>).
\<close>

datatype error =
    ErrReadDir
  | Err string
  | Wrapped string error

definition os_ReadDir :: "dir_state \<Rightarrow> error + DirEntry list" where
  "os_ReadDir st = (case st of None \<Rightarrow> Inl ErrReadDir | Some entries \<Rightarrow> Inr entries)"

text \<open>\<^verbatim>\<open>filepath.Join(snapshotDir, name)\<close> for the name of a directory entry.\<close>

definition filepath_Join :: "string \<Rightarrow> string \<Rightarrow> string" where
  "filepath_Join dir name = dir @ ''/'' @ name"

text \<open>The body of the loop of \<^verbatim>\<open>GetLocalSnapshots\<close> for one entry.\<close>

definition local_snapshot :: "string \<Rightarrow> DirEntry \<Rightarrow> SnapshotFile option" where
  "local_snapshot snapshotDir e =
     (if IsDir e then None
      else case pruner_fullSnapshotRe (Name e) of
        Some matches \<Rightarrow>
          Some \<lparr>Path = filepath_Join snapshotDir (Name e),
                Slot = ParseUint (matches ! 1), BaseSlot = 0, IsFull = True\<rparr>
      | None \<Rightarrow>
         (case pruner_incrementalSnapshotRe (Name e) of
            Some matches \<Rightarrow>
              Some \<lparr>Path = filepath_Join snapshotDir (Name e),
                    Slot = ParseUint (matches ! 2),
                    BaseSlot = ParseUint (matches ! 1), IsFull = False\<rparr>
          | None \<Rightarrow> None))"

definition GetLocalSnapshots :: "string \<Rightarrow> dir_state \<Rightarrow> error + SnapshotFile list" where
  "GetLocalSnapshots snapshotDir st =
     (case os_ReadDir st of
        Inl err \<Rightarrow> Inl err
      | Inr entries \<Rightarrow> Inr (List.map_filter (local_snapshot snapshotDir) entries))"

text \<open>\<^verbatim>\<open>NewestSlot\<close>: the running maximum, starting from 0.\<close>

definition NewestSlot :: "SnapshotFile list \<Rightarrow> uint64" where
  "NewestSlot snapshots =
     foldl (\<lambda>newest s. if Slot s > newest then Slot s else newest) 0 snapshots"

text \<open>
  \<^verbatim>\<open>NewestFullSnapshot\<close>: the pointer is \<open>None\<close> for nil; a later full replaces the
  current one only when its slot is strictly higher.
\<close>

definition NewestFullSnapshot :: "SnapshotFile list \<Rightarrow> SnapshotFile option" where
  "NewestFullSnapshot snapshots =
     foldl (\<lambda>newest s.
              if IsFull s \<and> (case newest of None \<Rightarrow> True | Some n \<Rightarrow> Slot s > Slot n)
              then Some s else newest)
       None snapshots"

section \<open>Freshness assessment (keeper, assessFreshness)\<close>

datatype downloadMode = modeSkip | modeIncremental | modeFull

text \<open>
  \<open>MaxIncrementalSlots\<close> is the configured \<^verbatim>\<open>snapshots.age.local.max_incremental_slots\<close>,
  a Go \<^verbatim>\<open>int\<close>; \<^verbatim>\<open>uint64(...)\<close> converts it modulo \<open>2^64\<close>. The third component
  of the result is the returned error, which is nil on every path.
\<close>

definition assessFreshness ::
  "string \<Rightarrow> int \<Rightarrow> dir_state \<Rightarrow> uint64 \<Rightarrow> downloadMode \<times> uint64 \<times> error option" where
  "assessFreshness snapshotDir MaxIncrementalSlots st currentSlot =
     (case GetLocalSnapshots snapshotDir st of
        Inl err \<Rightarrow> (modeFull, 0, None)
      | Inr snapshots \<Rightarrow>
          if length snapshots = 0 then (modeFull, 0, None)
          else
            let newestSlot = NewestSlot snapshots;
                newestFull = NewestFullSnapshot snapshots
            in if newestSlot \<ge> currentSlot then (modeSkip, 0, None)
               else
                 let age = currentSlot - newestSlot;
                     skipThreshold = (word_of_int MaxIncrementalSlots :: uint64)
                 in if age \<le> skipThreshold then (modeSkip, 0, None)
                    else case newestFull of
                           Some nf \<Rightarrow> (modeIncremental, Slot nf, None)
                         | None \<Rightarrow> (modeFull, 0, None))"

section \<open>Hooks (hooks.RunHooks, config.HookCommand)\<close>

record HookCommand =
  HookName :: string
  Cmd :: string
  Args :: "string list"
  Environment :: "(string \<times> string) list"
  AllowFailure :: bool
  StreamOutput :: bool
  Disabled :: bool

text \<open>
  \<^verbatim>\<open>renderTemplate\<close> (Go's text/template) and the execution of the rendered command
  (os/exec) are the environment: \<open>render\<close> maps a template and the template data to a
  string or an error, \<open>exec\<close> runs a command (name, arguments, environment, whether the
  output is streamed) in a world \<open>'w\<close> and returns its error and the new world.
  The verb \<^verbatim>\<open>%q\<close> of \<^verbatim>\<open>fmt.Errorf\<close> is \<^verbatim>\<open>strconv.Quote\<close>, of Go's library too: \<open>quote\<close> maps
  a string to its double-quoted, escaped form.
  \<open>Environment\<close> is a Go map; the model walks it in the order of the association list.
\<close>

fun render_list :: "(string \<Rightarrow> 'd \<Rightarrow> error + string) \<Rightarrow> string list \<Rightarrow> 'd \<Rightarrow> error + string list" where
  "render_list render [] data = Inr []"
| "render_list render (arg # rest) data =
     (case render arg data of
        Inl err \<Rightarrow> Inl err
      | Inr rendered \<Rightarrow>
         (case render_list render rest data of
            Inl err \<Rightarrow> Inl err
          | Inr others \<Rightarrow> Inr (rendered # others)))"

fun render_env ::
  "(string \<Rightarrow> string) \<Rightarrow> (string \<Rightarrow> 'd \<Rightarrow> error + string) \<Rightarrow> (string \<times> string) list \<Rightarrow> 'd \<Rightarrow>
   error + string list" where
  "render_env quote render [] data = Inr []"
| "render_env quote render ((k, v) # rest) data =
     (case render v data of
        Inl err \<Rightarrow> Inl (Wrapped (''rendering env '' @ quote k @ '' template'') err)
      | Inr rendered \<Rightarrow>
         (case render_env quote render rest data of
            Inl err \<Rightarrow> Inl err
          | Inr others \<Rightarrow> Inr ((k @ ''='' @ rendered) # others)))"

definition runHook ::
  "(string \<Rightarrow> string) \<Rightarrow> (string \<Rightarrow> 'd \<Rightarrow> error + string) \<Rightarrow>
   (string \<Rightarrow> string list \<Rightarrow> string list \<Rightarrow> bool \<Rightarrow> 'w \<Rightarrow> error option \<times> 'w) \<Rightarrow>
   HookCommand \<Rightarrow> 'd \<Rightarrow> 'w \<Rightarrow> error option \<times> 'w" where
  "runHook quote render exec hook data w =
     (case render (Cmd hook) data of
        Inl err \<Rightarrow> (Some (Wrapped ''rendering cmd template'' err), w)
      | Inr cmd \<Rightarrow>
         (case render_list render (Args hook) data of
            Inl err \<Rightarrow> (Some (Wrapped ''rendering arg template'' err), w)
          | Inr args \<Rightarrow>
             (case render_env quote render (Environment hook) data of
                Inl err \<Rightarrow> (Some err, w)
              | Inr env \<Rightarrow> exec cmd args env (StreamOutput hook) w)))"

text \<open>
  The loop of \<^verbatim>\<open>RunHooks\<close> from index \<open>i\<close> on. Besides the returned error and the
  world, the model returns the run log: for every hook handed to \<open>runHook\<close>, in order,
  its index in the list and what \<open>runHook\<close> returned.
\<close>

fun RunHooks_from ::
  "(string \<Rightarrow> string) \<Rightarrow> (string \<Rightarrow> 'd \<Rightarrow> error + string) \<Rightarrow>
   (string \<Rightarrow> string list \<Rightarrow> string list \<Rightarrow> bool \<Rightarrow> 'w \<Rightarrow> error option \<times> 'w) \<Rightarrow>
   nat \<Rightarrow> HookCommand list \<Rightarrow> 'd \<Rightarrow> 'w \<Rightarrow> error option \<times> 'w \<times> (nat \<times> error option) list" where
  "RunHooks_from quote render exec i [] data w = (None, w, [])"
| "RunHooks_from quote render exec i (hook # hooks) data w =
     (if Disabled hook then RunHooks_from quote render exec (Suc i) hooks data w
      else case runHook quote render exec hook data w of
        (Some err, w') \<Rightarrow>
          if AllowFailure hook
          then (case RunHooks_from quote render exec (Suc i) hooks data w' of
                  (res, w'', runlog) \<Rightarrow> (res, w'', (i, Some err) # runlog))
          else (Some (Wrapped (''hook '' @ quote (HookName hook) @ '' failed'') err), w', [(i, Some err)])
      | (None, w') \<Rightarrow>
          (case RunHooks_from quote render exec (Suc i) hooks data w' of
             (res, w'', runlog) \<Rightarrow> (res, w'', (i, None) # runlog)))"

definition RunHooks ::
  "(string \<Rightarrow> string) \<Rightarrow> (string \<Rightarrow> 'd \<Rightarrow> error + string) \<Rightarrow>
   (string \<Rightarrow> string list \<Rightarrow> string list \<Rightarrow> bool \<Rightarrow> 'w \<Rightarrow> error option \<times> 'w) \<Rightarrow>
   HookCommand list \<Rightarrow> 'd \<Rightarrow> 'w \<Rightarrow> error option \<times> 'w \<times> (nat \<times> error option) list" where
  "RunHooks quote render exec hooks data w = RunHooks_from quote render exec 0 hooks data w"

text \<open>
  The indices, counted from \<open>i\<close>, of the hooks of a list that are not disabled; it
  states which hooks the run log must hold.
\<close>

definition enabled_idx :: "nat \<Rightarrow> HookCommand list \<Rightarrow> nat list" where
  "enabled_idx i hs = map fst (filter (\<lambda>(j, h). \<not> Disabled h) (enumerate i hs))"

section \<open>Go's sort.Slice\<close>

text \<open>
  \<^verbatim>\<open>sort.Slice(x, less)\<close> belongs to Go's library, not to this repository. \<open>Prune\<close> and
  \<open>sortNodes\<close> take it as a parameter \<open>srt\<close>, and their theorems assume what the library
  documents: the slice is permuted, and afterwards no element is less than an earlier
  one. The documentation promises no stability.
\<close>

definition sort_Slice_spec ::
  "(('a \<Rightarrow> 'a \<Rightarrow> bool) \<Rightarrow> 'a list \<Rightarrow> 'a list) \<Rightarrow> ('a \<Rightarrow> 'a \<Rightarrow> bool) \<Rightarrow> bool" where
  "sort_Slice_spec srt lessf \<longleftrightarrow>
     (\<forall>xs. mset (srt lessf xs) = mset xs \<and> sorted_wrt (\<lambda>a b. \<not> lessf b a) (srt lessf xs))"

text \<open>
  Insertion sort on lists, one function that meets this contract: each element in turn
  moves left while it is less than its left neighbour. The theorems about \<open>Prune\<close> and
  \<open>sortNodes\<close> hold for every \<open>srt\<close> that meets the contract; this one instantiates them.
\<close>

fun insert_left :: "('a \<Rightarrow> 'a \<Rightarrow> bool) \<Rightarrow> 'a \<Rightarrow> 'a list \<Rightarrow> 'a list" where
  "insert_left lessf x [] = [x]"
| "insert_left lessf x (y # ys) = (if lessf x y then y # insert_left lessf x ys else x # y # ys)"

definition insertionSort :: "('a \<Rightarrow> 'a \<Rightarrow> bool) \<Rightarrow> 'a list \<Rightarrow> 'a list" where
  "insertionSort lessf xs = rev (foldl (\<lambda>sorted_rev x. insert_left lessf x sorted_rev) [] xs)"

section \<open>Pruning (internal/pruner/pruner.go, Prune)\<close>

text \<open>
  \<^verbatim>\<open>os.Remove(path)\<close> on the listing of the snapshot directory: the entry whose joined
  path is \<open>path\<close> disappears. \<open>Prune\<close> calls it on regular files of the listing only and
  ignores its error; the model lets every such removal succeed.
\<close>

definition os_Remove :: "string \<Rightarrow> string \<Rightarrow> DirEntry list \<Rightarrow> DirEntry list" where
  "os_Remove snapshotDir path entries =
     filter (\<lambda>e. filepath_Join snapshotDir (Name e) \<noteq> path) entries"

text \<open>
  The body of the first loop of \<open>Prune\<close>: one entry is skipped (a directory), or appended
  to the temp files, the fulls or the incrementals, or left alone.
\<close>

definition prune_scan ::
  "string \<Rightarrow> SnapshotFile list \<times> SnapshotFile list \<times> string list \<Rightarrow> DirEntry \<Rightarrow>
   SnapshotFile list \<times> SnapshotFile list \<times> string list" where
  "prune_scan snapshotDir acc e =
     (case acc of (fulls, incrementals, tempFiles) \<Rightarrow>
        if IsDir e then (fulls, incrementals, tempFiles)
        else if tempFileRe (Name e)
          then (fulls, incrementals, tempFiles @ [filepath_Join snapshotDir (Name e)])
        else case pruner_fullSnapshotRe (Name e) of
          Some matches \<Rightarrow>
            (fulls @ [\<lparr>Path = filepath_Join snapshotDir (Name e),
                        Slot = ParseUint (matches ! 1), BaseSlot = 0, IsFull = True\<rparr>],
             incrementals, tempFiles)
        | None \<Rightarrow>
           (case pruner_incrementalSnapshotRe (Name e) of
              Some matches \<Rightarrow>
                (fulls,
                 incrementals @ [\<lparr>Path = filepath_Join snapshotDir (Name e),
                                   Slot = ParseUint (matches ! 2),
                                   BaseSlot = ParseUint (matches ! 1), IsFull = False\<rparr>],
                 tempFiles)
            | None \<Rightarrow> (fulls, incrementals, tempFiles)))"

text \<open>The last loop of \<open>Prune\<close>, over the sorted incrementals, with its flag.\<close>

fun prune_incrementals ::
  "string \<Rightarrow> SnapshotFile \<Rightarrow> bool \<Rightarrow> SnapshotFile list \<Rightarrow> DirEntry list \<Rightarrow> DirEntry list" where
  "prune_incrementals snapshotDir newestFull keptIncremental [] entries = entries"
| "prune_incrementals snapshotDir newestFull keptIncremental (inc # rest) entries =
     (if BaseSlot inc \<noteq> Slot newestFull then
        prune_incrementals snapshotDir newestFull keptIncremental rest
          (os_Remove snapshotDir (Path inc) entries)
      else if keptIncremental then
        prune_incrementals snapshotDir newestFull keptIncremental rest
          (os_Remove snapshotDir (Path inc) entries)
      else prune_incrementals snapshotDir newestFull True rest entries)"

text \<open>
  \<open>Prune\<close>: the returned error and the directory afterwards. Sorting in place keeps the
  length of the slice, so \<^verbatim>\<open>fulls[0]\<close> exists when \<^verbatim>\<open>len(fulls) > 0\<close>; the branch for an
  empty sorted slice is there only because \<open>srt\<close> is a parameter.
\<close>

definition Prune ::
  "((SnapshotFile \<Rightarrow> SnapshotFile \<Rightarrow> bool) \<Rightarrow> SnapshotFile list \<Rightarrow> SnapshotFile list) \<Rightarrow>
   string \<Rightarrow> dir_state \<Rightarrow> error option \<times> dir_state" where
  "Prune srt snapshotDir st =
     (case os_ReadDir st of
        Inl e \<Rightarrow> (Some e, st)
      | Inr entries \<Rightarrow>
         (case foldl (prune_scan snapshotDir) ([], [], []) entries of
            (fulls, incrementals, tempFiles) \<Rightarrow>
              let st1 = foldl (\<lambda>s f. os_Remove snapshotDir f s) entries tempFiles
              in if length fulls = 0 then (None, Some st1)
                 else
                   (case srt (\<lambda>a b. Slot a > Slot b) fulls of
                      [] \<Rightarrow> (None, Some st1)
                    | newestFull # olderFulls \<Rightarrow>
                        let st2 = foldl (\<lambda>s f. os_Remove snapshotDir (Path f) s) st1 olderFulls;
                            sortedIncrementals = srt (\<lambda>a b. Slot a > Slot b) incrementals;
                            st3 = prune_incrementals snapshotDir newestFull False
                                    sortedIncrementals st2
                        in (None, Some st3))))"

text \<open>
  What the first loop of \<open>Prune\<close> makes of one entry: the path of a temp file, a full
  snapshot, an incremental snapshot, or nothing. The three tests are those of the loop
  body, in its order.
\<close>

definition prune_temp :: "string \<Rightarrow> DirEntry \<Rightarrow> string option" where
  "prune_temp snapshotDir e =
     (if \<not> IsDir e \<and> tempFileRe (Name e) then Some (filepath_Join snapshotDir (Name e)) else None)"

definition prune_full :: "string \<Rightarrow> DirEntry \<Rightarrow> SnapshotFile option" where
  "prune_full snapshotDir e =
     (if IsDir e \<or> tempFileRe (Name e) then None
      else case pruner_fullSnapshotRe (Name e) of
        Some matches \<Rightarrow>
          Some \<lparr>Path = filepath_Join snapshotDir (Name e),
                Slot = ParseUint (matches ! 1), BaseSlot = 0, IsFull = True\<rparr>
      | None \<Rightarrow> None)"

definition prune_incremental :: "string \<Rightarrow> DirEntry \<Rightarrow> SnapshotFile option" where
  "prune_incremental snapshotDir e =
     (if IsDir e \<or> tempFileRe (Name e) then None
      else case pruner_fullSnapshotRe (Name e) of
        Some matches \<Rightarrow> None
      | None \<Rightarrow>
         (case pruner_incrementalSnapshotRe (Name e) of
            Some matches \<Rightarrow>
              Some \<lparr>Path = filepath_Join snapshotDir (Name e),
                    Slot = ParseUint (matches ! 2),
                    BaseSlot = ParseUint (matches ! 1), IsFull = False\<rparr>
          | None \<Rightarrow> None))"

text \<open>The fulls and the incrementals the first loop collects from a listing.\<close>

definition prune_fulls :: "string \<Rightarrow> DirEntry list \<Rightarrow> SnapshotFile list" where
  "prune_fulls d es = List.map_filter (prune_full d) es"

definition prune_incs :: "string \<Rightarrow> DirEntry list \<Rightarrow> SnapshotFile list" where
  "prune_incs d es = List.map_filter (prune_incremental d) es"

definition opt_list :: "'a option \<Rightarrow> 'a list" where
  "opt_list x = (case x of None \<Rightarrow> [] | Some y \<Rightarrow> [y])"

text \<open>
  The incrementals the last loop of \<open>Prune\<close> removes: the same traversal as
  \<open>prune_incrementals\<close>, collecting the removed files.
\<close>

fun dropped :: "SnapshotFile \<Rightarrow> bool \<Rightarrow> SnapshotFile list \<Rightarrow> SnapshotFile list" where
  "dropped nf kept [] = []"
| "dropped nf kept (i # r) =
     (if BaseSlot i \<noteq> Slot nf then i # dropped nf kept r
      else if kept then i # dropped nf kept r
      else dropped nf True r)"

text \<open>
  A directory listing holds each name once. The state of an unreadable directory has no
  listing.
\<close>

definition distinct_names :: "dir_state \<Rightarrow> bool" where
  "distinct_names st = (case st of None \<Rightarrow> True | Some es \<Rightarrow> distinct (map Name es))"
section \<open>Probing a node (internal/discovery/discovery.go)\<close>

datatype SnapshotType = SnapshotTypeFull | SnapshotTypeIncremental

text \<open>
  \<^verbatim>\<open>SnapshotNode\<close>. Its \<^verbatim>\<open>Slot\<close> and \<^verbatim>\<open>BaseSlot\<close> fields are \<open>NodeSlot\<close> and
  \<open>NodeBaseSlot\<close> here, the plain names being fields of \<open>SnapshotFile\<close>.
  \<^verbatim>\<open>time.Duration\<close> is a number of nanoseconds.
\<close>

record SnapshotNode =
  RPCURL :: string
  SnapshotURL :: string
  SnapshotType :: SnapshotType
  NodeSlot :: uint64
  NodeBaseSlot :: uint64
  Filename :: string
  Latency :: int
  SlotAge :: uint64

record discovery_Options =
  MaxLatency :: int
  MaxSnapshotAgeSlots :: int
  ProbeConcurrency :: int
  SortOrder :: string
  MinSuitable :: int

text \<open>
  The discovery patterns are not anchored: \<^verbatim>\<open>FindStringSubmatch\<close> returns the leftmost
  match, the whole match followed by the submatches.
\<close>

fun find_leftmost :: "(string \<Rightarrow> (string list \<times> string) option) \<Rightarrow> string \<Rightarrow> string list option" where
  "find_leftmost m [] =
     (case m [] of Some (groups, rest) \<Rightarrow> Some ([] # groups) | None \<Rightarrow> None)"
| "find_leftmost m (c # cs) =
     (case m (c # cs) of
        Some (groups, rest) \<Rightarrow> Some (take (length (c # cs) - length rest) (c # cs) # groups)
      | None \<Rightarrow> find_leftmost m cs)"

definition discovery_fullSnapshotRe :: "string \<Rightarrow> string list option" where
  "discovery_fullSnapshotRe s = find_leftmost match_full_at s"

definition discovery_incrementalSnapshotRe :: "string \<Rightarrow> string list option" where
  "discovery_incrementalSnapshotRe s = find_leftmost match_incremental_at s"

datatype rejectReason =
    rejectHTTPError
  | rejectLatency
  | rejectStatusCode
  | rejectParseFail
  | rejectTooOld

text \<open>
  \<^verbatim>\<open>probeError\<close>; a field a return statement does not set has Go's zero value. Its
  \<^verbatim>\<open>err\<close> field is \<open>wrapped_err\<close> here; the messages are kept without the numbers
  formatted into them.
\<close>

record probeError =
  reason :: rejectReason
  wrapped_err :: error
  statusCode :: int
  slotAge :: uint64

text \<open>
  The error \<^verbatim>\<open>probeNode\<close> returns is a \<^verbatim>\<open>*probeError\<close> on every path but one: a
  failure to build the request is returned as a plain wrapped error.
\<close>

datatype probe_failure = PlainError error | ProbeError probeError

text \<open>
  The environment of one probe: building the request fails, the HEAD request fails, or
  a response arrives with its status code, its \<^verbatim>\<open>Location\<close> header (empty when absent)
  and the round trip \<^verbatim>\<open>time.Since(start)\<close> measured for it.
\<close>

datatype head_outcome =
    NewRequestError error
  | DoError error
  | Response int string int

text \<open>\<^verbatim>\<open>strings.Split(s, "/")\<close>: never empty.\<close>

fun strings_Split_slash :: "string \<Rightarrow> string list" where
  "strings_Split_slash [] = [[]]"
| "strings_Split_slash (c # cs) =
     (if c = CHR ''/'' then [] # strings_Split_slash cs
      else case strings_Split_slash cs of
             p # ps \<Rightarrow> (c # p) # ps
           | [] \<Rightarrow> [[c]])"

definition parseSnapshotFilename :: "string \<Rightarrow> SnapshotType \<Rightarrow> error + SnapshotNode" where
  "parseSnapshotFilename filename snapshotType =
     (if snapshotType = SnapshotTypeIncremental then
        (case discovery_incrementalSnapshotRe filename of
           None \<Rightarrow> Inl (Err ''filename does not match incremental snapshot pattern'')
         | Some matches \<Rightarrow>
             Inr \<lparr>RPCURL = [], SnapshotURL = [], SnapshotType = SnapshotTypeIncremental,
                  NodeSlot = ParseUint (matches ! 2), NodeBaseSlot = ParseUint (matches ! 1),
                  Filename = [], Latency = 0, SlotAge = 0\<rparr>)
      else
        (case discovery_fullSnapshotRe filename of
           None \<Rightarrow> Inl (Err ''filename does not match full snapshot pattern'')
         | Some matches \<Rightarrow>
             Inr \<lparr>RPCURL = [], SnapshotURL = [], SnapshotType = SnapshotTypeFull,
                  NodeSlot = ParseUint (matches ! 1), NodeBaseSlot = 0,
                  Filename = [], Latency = 0, SlotAge = 0\<rparr>))"

text \<open>
  The \<^verbatim>\<open>switch resp.StatusCode\<close> of \<^verbatim>\<open>probeNode\<close>: the file name the response names, or
  the rejection.
\<close>

definition response_filename :: "int \<Rightarrow> string \<Rightarrow> string \<Rightarrow> probe_failure + string" where
  "response_filename StatusCode Location endpoint =
     (if StatusCode = 301 \<or> StatusCode = 302 \<or> StatusCode = 303 \<or> StatusCode = 307 then
        (if Location = [] then
           Inl (ProbeError \<lparr>reason = rejectStatusCode,
                  wrapped_err = Err ''redirect with no Location header'',
                  statusCode = StatusCode, slotAge = 0\<rparr>)
         else Inr (last (strings_Split_slash Location)))
      else if StatusCode = 200 then Inr (last (strings_Split_slash endpoint))
      else Inl (ProbeError \<lparr>reason = rejectStatusCode, wrapped_err = Err ''unexpected status'',
                  statusCode = StatusCode, slotAge = 0\<rparr>))"

definition probeNode ::
  "head_outcome \<Rightarrow> string \<Rightarrow> string \<Rightarrow> uint64 \<Rightarrow> SnapshotType \<Rightarrow> discovery_Options \<Rightarrow>
   probe_failure + SnapshotNode" where
  "probeNode http addr endpoint currentSlot snapshotType opts =
     (case http of
        NewRequestError e \<Rightarrow> Inl (PlainError (Wrapped ''creating request'' e))
      | DoError e \<Rightarrow>
          Inl (ProbeError \<lparr>reason = rejectHTTPError, wrapped_err = Wrapped ''executing request'' e,
                 statusCode = 0, slotAge = 0\<rparr>)
      | Response StatusCode Location latency \<Rightarrow>
          if latency > MaxLatency opts then
            Inl (ProbeError \<lparr>reason = rejectLatency, wrapped_err = Err ''latency exceeds max'',
                   statusCode = 0, slotAge = 0\<rparr>)
          else
            (case response_filename StatusCode Location endpoint of
               Inl rejection \<Rightarrow> Inl rejection
             | Inr snapshotFilename \<Rightarrow>
                (case parseSnapshotFilename snapshotFilename snapshotType of
                   Inl e \<Rightarrow>
                     Inl (ProbeError \<lparr>reason = rejectParseFail, wrapped_err = e,
                            statusCode = 0, slotAge = 0\<rparr>)
                 | Inr node \<Rightarrow>
                     if NodeSlot node > currentSlot then
                       Inl (ProbeError \<lparr>reason = rejectTooOld,
                              wrapped_err = Err ''snapshot slot is ahead of current slot'',
                              statusCode = 0, slotAge = 0\<rparr>)
                     else
                       let slotAge = currentSlot - NodeSlot node
                       in if MaxSnapshotAgeSlots opts > 0 \<and>
                             slotAge > word_of_int (MaxSnapshotAgeSlots opts) then
                            Inl (ProbeError \<lparr>reason = rejectTooOld,
                                   wrapped_err = Err ''slot age exceeds max'',
                                   statusCode = 0, slotAge = slotAge\<rparr>)
                          else
                            Inr (node\<lparr>RPCURL := addr,
                                      SnapshotURL := addr @ ''/'' @ snapshotFilename,
                                      Latency := latency,
                                      SlotAge := slotAge,
                                      Filename := snapshotFilename\<rparr>))))"

section \<open>Chunk ranges of the parallel download (downloader.downloadParallel)\<close>

text \<open>
  Go's integer division truncates towards zero. \<^verbatim>\<open>int\<close> and \<^verbatim>\<open>int64\<close> are modelled as
  \<open>int\<close>; the range theorem below shows that every value computed for the chunks lies
  between \<open>-1\<close> and the content length, so none of them can overflow 64 bits.
\<close>

definition go_div :: "int \<Rightarrow> int \<Rightarrow> int" where
  "go_div a b = sgn a * sgn b * (\<bar>a\<bar> div \<bar>b\<bar>)"

text \<open>
  The loop \<^verbatim>\<open>for i := 0; i < numConns; i++\<close> that launches the workers, as the list of
  the \<^verbatim>\<open>(rangeStart, rangeEnd)\<close> pairs it hands to them, in order.
\<close>

function chunk_loop :: "int \<Rightarrow> int \<Rightarrow> int \<Rightarrow> int \<Rightarrow> (int \<times> int) list" where
  "chunk_loop i numConns chunkSize contentLength =
     (if i < numConns
      then (let rangeStart = i * chunkSize;
                rangeEnd = (if i = numConns - 1 then contentLength - 1
                            else rangeStart + chunkSize - 1)
            in (rangeStart, rangeEnd) # chunk_loop (i + 1) numConns chunkSize contentLength)
      else [])"
  by pat_completeness auto
termination
  by (relation "measure (\<lambda>(i, numConns, chunkSize, contentLength). nat (numConns - i))") auto

definition chunk_ranges :: "int \<Rightarrow> int \<Rightarrow> (int \<times> int) list" where
  "chunk_ranges contentLength numConns =
     chunk_loop 0 numConns (go_div contentLength numConns) contentLength"

text \<open>Byte offset \<open>b\<close> lies in the inclusive range \<open>r\<close>.\<close>

definition in_range :: "int \<Rightarrow> int \<times> int \<Rightarrow> bool" where
  "in_range b r \<longleftrightarrow> fst r \<le> b \<and> b \<le> snd r"

text \<open>The range of chunk \<open>k\<close> in closed form; it only serves the proofs.\<close>

definition chunk_of :: "int \<Rightarrow> int \<Rightarrow> nat \<Rightarrow> int \<times> int" where
  "chunk_of L N k =
     (int k * (L div N), if int k = N - 1 then L - 1 else int k * (L div N) + (L div N) - 1)"

section \<open>The downloader (internal/downloader/downloader.go)\<close>

text \<open>
  \<^verbatim>\<open>Options\<close>; a \<^verbatim>\<open>time.Duration\<close> is its number of nanoseconds. Of \<^verbatim>\<open>Result\<close> the model keeps
  the path, the bytes and the duration measured by \<^verbatim>\<open>time.Since(start)\<close>, from which the
  code computes the two remaining fields in floating point.
\<close>

record downloader_Options =
  MinDownloadSpeedBytes :: int
  MinSpeedCheckDelay :: int
  DownloadConnections :: int
  DownloadTimeout :: int

record Result =
  FilePath :: string
  Bytes :: int
  Duration :: int

text \<open>
  The files, by path, with their contents. \<^verbatim>\<open>os.Remove\<close> of a path takes the file away (the
  code ignores its error; the model lets it succeed).
\<close>

type_synonym files = "string \<Rightarrow> string option"

definition fs_Remove :: "string \<Rightarrow> files \<Rightarrow> files" where
  "fs_Remove path fs = fs(path := None)"

text \<open>
  What the network, the disk and Go's floating point contribute. A \<^verbatim>\<open>HEAD\<close> request fails
  when it is built, fails when it is sent, or brings \<^verbatim>\<open>ContentLength\<close> and the
  \<^verbatim>\<open>Accept-Ranges\<close> header. A \<^verbatim>\<open>GET\<close> request likewise brings a status code and a body. The
  body is the list of its reads: how long \<^verbatim>\<open>resp.Body.Read\<close> blocks, the bytes it puts
  in the buffer, the error it returns (\<^verbatim>\<open>nil\<close>, \<^verbatim>\<open>io.EOF\<close> or another), and the error of
  \<^verbatim>\<open>f.Write\<close> for these bytes. A body whose list is used up has ended: the next read
  returns no bytes and \<^verbatim>\<open>io.EOF\<close>.
\<close>

datatype head_result = HeadNewRequestError error | HeadDoError error | HeadResponse int string

datatype read_result = ReadNil | ReadEOF | ReadError error

record read_event =
  read_took :: int
  read_bytes :: string
  read_err :: read_result
  write_err :: "error option"

datatype get_result = GetNewRequestError error | GetDoError error | GetResponse int "read_event list"

text \<open>
  \<open>float_below bytes d m\<close> stands for \<^verbatim>\<open>float64(bytes) / d.Seconds() < float64(m)\<close>,
  \<open>float_speed bytes d\<close> for \<^verbatim>\<open>int64(float64(bytes) / d.Seconds())\<close> and \<open>fmt_1f b c\<close> for
  \<^verbatim>\<open>fmt.Sprintf("%.1f", float64(b)/c)\<close>. \<open>chunk_workers\<close> stands for the goroutines of
  \<open>downloadParallel\<close> between the creation of the temp file and \<^verbatim>\<open>wg.Wait()\<close>: given the
  chunk ranges, the two speed options they read, the context and the time, it tells how
  long they ran, what they left in the temp file, the value of \<^verbatim>\<open>totalDownloaded\<close> and
  the error recorded in \<^verbatim>\<open>downloadErr\<close>.
\<close>

record download_env =
  http_Head :: head_result
  http_Head_took :: int
  http_Get :: get_result
  http_Get_took :: int
  os_Create_err :: "error option"
  Truncate_err :: "error option"
  os_Rename_err :: "error option"
  chunk_workers :: "(int \<times> int) list \<Rightarrow> int \<Rightarrow> int \<Rightarrow> int option \<Rightarrow> int \<Rightarrow>
                    int \<times> string \<times> int \<times> error option"
  float_below :: "int \<Rightarrow> int \<Rightarrow> int \<Rightarrow> bool"
  float_speed :: "int \<Rightarrow> int \<Rightarrow> int"
  fmt_1f :: "int \<Rightarrow> int \<Rightarrow> string"

text \<open>The verb \<^verbatim>\<open>%d\<close>.\<close>

fun string_of_nat :: "nat \<Rightarrow> string" where
  "string_of_nat n =
     (if n < 10 then [char_of (48 + n)]
      else string_of_nat (n div 10) @ [char_of (48 + n mod 10)])"

definition fmt_d :: "int \<Rightarrow> string" where
  "fmt_d i = (if i < 0 then ''-'' @ string_of_nat (nat (- i)) else string_of_nat (nat i))"

definition formatBytes :: "download_env \<Rightarrow> int \<Rightarrow> string" where
  "formatBytes E b =
     (if b \<ge> 1024 * 1024 * 1024 then fmt_1f E b (1024 * 1024 * 1024) @ '' GB''
      else if b \<ge> 1024 * 1024 then fmt_1f E b (1024 * 1024) @ '' MB''
      else if b \<ge> 1024 then fmt_1f E b 1024 @ '' KB''
      else fmt_d b @ '' B'')"

text \<open>
  A context is the instant at which it is done, if there is one; instants are
  nanoseconds since the call of \<open>Download\<close>.
\<close>

definition ctx_Done :: "int option \<Rightarrow> int \<Rightarrow> bool" where
  "ctx_Done ctx t = (case ctx of None \<Rightarrow> False | Some c \<Rightarrow> c \<le> t)"

text \<open>
  The speed check goroutine of \<open>downloadSingle\<close>. It is started when both speed options
  are positive, and waits for its timer or for the context. \<open>gate_timer\<close> is called
  when a read that began with the goroutine waiting returns at \<open>t'\<close>, with the counter
  \<open>totalDownloaded\<close> as it stood during that read: when the timer has fired before
  \<open>t'\<close>, the goroutine has ended, on \<^verbatim>\<open>downloadCtx.Done()\<close> if the outer context was done
  by then, and otherwise after comparing the speed, with \<^verbatim>\<open>cancel()\<close> when it is below the
  minimum. It records no error. A read that returns at the very instant of the timer
  counts as having returned before it.
\<close>

datatype speed_gate = GateOff | GateWaiting | GateCancelled

definition gate_start :: "downloader_Options \<Rightarrow> speed_gate" where
  "gate_start opts =
     (if MinSpeedCheckDelay opts > 0 \<and> MinDownloadSpeedBytes opts > 0 then GateWaiting else GateOff)"

definition gate_timer ::
  "download_env \<Rightarrow> int option \<Rightarrow> downloader_Options \<Rightarrow> int \<Rightarrow> speed_gate \<Rightarrow> int \<Rightarrow> int \<Rightarrow> speed_gate" where
  "gate_timer E ctx opts start gate t' downloaded =
     (if gate = GateWaiting \<and> start + MinSpeedCheckDelay opts < t' then
        (if ctx_Done ctx (start + MinSpeedCheckDelay opts) then GateOff
         else if float_below E downloaded (MinSpeedCheckDelay opts) (MinDownloadSpeedBytes opts)
           then GateCancelled
         else GateOff)
      else gate)"

text \<open>
  The error of the \<^verbatim>\<open>case <-downloadCtx.Done()\<close> branch, from the bytes written and the time
  since \<open>start\<close>.
\<close>

definition speed_error :: "download_env \<Rightarrow> downloader_Options \<Rightarrow> int \<Rightarrow> int \<Rightarrow> error" where
  "speed_error E opts tot elapsed =
     Err (''speed '' @ formatBytes E (float_speed E tot elapsed) @ ''/s below minimum '' @
          formatBytes E (MinDownloadSpeedBytes opts) @ ''/s'')"

text \<open>
  The read loop of \<open>downloadSingle\<close>, at the top of an iteration at time \<open>t\<close>: \<open>tot\<close>
  bytes are written (the variable \<^verbatim>\<open>total\<close>), \<open>file\<close> is the content of the temp file, \<open>body\<close> the reads to come.
  \<^verbatim>\<open>downloadCtx\<close> is done when the outer context is, or when the goroutine has cancelled
  it. The request is bound to the outer context \<^verbatim>\<open>ctx\<close>, so the reads are those of the
  body whatever the goroutine does. The result is the returned count and error, the
  content of the temp file and the time of the return.
\<close>

fun read_loop ::
  "download_env \<Rightarrow> int option \<Rightarrow> downloader_Options \<Rightarrow> int \<Rightarrow> speed_gate \<Rightarrow> int \<Rightarrow> int \<Rightarrow> string \<Rightarrow>
   read_event list \<Rightarrow> int \<times> error option \<times> string \<times> int" where
  "read_loop E ctx opts start gate t tot file [] =
     (if ctx_Done ctx t \<or> gate = GateCancelled
      then (tot, Some (speed_error E opts tot (t - start)), file, t)
      else (tot, None, file, t))"
| "read_loop E ctx opts start gate t tot file (ev # body) =
     (if ctx_Done ctx t \<or> gate = GateCancelled
      then (tot, Some (speed_error E opts tot (t - start)), file, t)
      else
        let t' = t + read_took ev;
            n = int (length (read_bytes ev))
        in if n > 0 \<and> write_err ev \<noteq> None then (tot, write_err ev, file, t')
           else
             (case read_err ev of
                ReadEOF \<Rightarrow> (tot + n, None, file @ read_bytes ev, t')
              | ReadError e \<Rightarrow> (tot + n, Some e, file @ read_bytes ev, t')
              | ReadNil \<Rightarrow>
                  read_loop E ctx opts start (gate_timer E ctx opts start gate t' tot) t'
                    (tot + n) (file @ read_bytes ev) body))"

text \<open>
  The time, the byte count and the state of the goroutine at the top of each iteration
  that the loop makes when every read goes through; they state when the loop finds its
  context done. A read goes through when it returns no error and its bytes, if any, are
  written without error.
\<close>

fun loop_tops ::
  "download_env \<Rightarrow> int option \<Rightarrow> downloader_Options \<Rightarrow> int \<Rightarrow> speed_gate \<Rightarrow> int \<Rightarrow> int \<Rightarrow>
   read_event list \<Rightarrow> (int \<times> int \<times> speed_gate) list" where
  "loop_tops E ctx opts start gate t tot [] = [(t, tot, gate)]"
| "loop_tops E ctx opts start gate t tot (ev # body) =
     (t, tot, gate) #
     loop_tops E ctx opts start (gate_timer E ctx opts start gate (t + read_took ev) tot)
       (t + read_took ev) (tot + int (length (read_bytes ev))) body"



text \<open>
  \<open>downloadSingle\<close>, called at time \<open>now\<close>: the returned count and error, the files and
  the time of the return. \<^verbatim>\<open>os.Create\<close> makes the temp file empty.
\<close>

definition downloadSingle ::
  "download_env \<Rightarrow> int option \<Rightarrow> string \<Rightarrow> string \<Rightarrow> downloader_Options \<Rightarrow> files \<Rightarrow> int \<Rightarrow>
   int \<times> error option \<times> files \<times> int" where
  "downloadSingle E ctx url tempPath opts fs now =
     (case http_Get E of
        GetNewRequestError e \<Rightarrow> (0, Some (Wrapped ''creating GET request'' e), fs, now)
      | GetDoError e \<Rightarrow> (0, Some (Wrapped ''GET request'' e), fs, now + http_Get_took E)
      | GetResponse status body \<Rightarrow>
          let start = now + http_Get_took E in
          if status \<noteq> 200 then (0, Some (Err (''unexpected status '' @ fmt_d status)), fs, start)
          else
            (case os_Create_err E of
               Some e \<Rightarrow> (0, Some (Wrapped ''creating temp file'' e), fs, start)
             | None \<Rightarrow>
                 (case read_loop E ctx opts start (gate_start opts) start 0 [] body of
                    (tot, err, file, t) \<Rightarrow> (tot, err, fs(tempPath \<mapsto> file), t))))"

text \<open>
  \<open>downloadParallel\<close>: the temp file is created and truncated to the content length,
  then the goroutines run on the chunk ranges.
\<close>

definition downloadParallel ::
  "download_env \<Rightarrow> int option \<Rightarrow> string \<Rightarrow> string \<Rightarrow> int \<Rightarrow> downloader_Options \<Rightarrow> files \<Rightarrow> int \<Rightarrow>
   int \<times> error option \<times> files \<times> int" where
  "downloadParallel E ctx url tempPath contentLength opts fs now =
     (let numConns = DownloadConnections opts in
      case os_Create_err E of
        Some e \<Rightarrow> (0, Some (Wrapped ''creating temp file'' e), fs, now)
      | None \<Rightarrow>
          (case Truncate_err E of
             Some e \<Rightarrow> (0, Some (Wrapped ''truncating file'' e), fs(tempPath \<mapsto> []), now)
           | None \<Rightarrow>
               (case chunk_workers E (chunk_ranges contentLength numConns)
                       (MinSpeedCheckDelay opts) (MinDownloadSpeedBytes opts) ctx now of
                  (took, file, tot, downloadErr) \<Rightarrow>
                    (tot, downloadErr, fs(tempPath \<mapsto> file), now + took))))"

text \<open>\<^verbatim>\<open>os.Rename\<close>: it fails when there is no file to rename, or when the disk says so.\<close>

definition os_Rename :: "download_env \<Rightarrow> string \<Rightarrow> string \<Rightarrow> files \<Rightarrow> error option \<times> files" where
  "os_Rename E oldpath newpath fs =
     (case fs oldpath of
        None \<Rightarrow> (Some (Err ''no such file or directory''), fs)
      | Some content \<Rightarrow>
          (case os_Rename_err E of
             Some e \<Rightarrow> (Some e, fs)
           | None \<Rightarrow> (None, (fs(oldpath := None))(newpath \<mapsto> content))))"

text \<open>
  The choice of \<open>Download\<close> between the two ways to fill the temp file: in parallel when
  the server supports ranges and there is more than one connection.
\<close>

definition download_either ::
  "download_env \<Rightarrow> int option \<Rightarrow> string \<Rightarrow> string \<Rightarrow> int \<Rightarrow> string \<Rightarrow> downloader_Options \<Rightarrow>
   files \<Rightarrow> int \<Rightarrow> int \<times> error option \<times> files \<times> int" where
  "download_either E ctx url tempPath contentLength acceptRanges opts fs start =
     (let supportsRange = (acceptRanges = ''bytes'' \<and> contentLength > 0)
      in if supportsRange \<and> DownloadConnections opts > 1
         then downloadParallel E ctx url tempPath contentLength opts fs start
         else downloadSingle E ctx url tempPath opts fs start)"

text \<open>
  \<open>Download\<close>, called at time 0: the result or the error, and the files afterwards.
  \<open>opts\<close> is read for \<open>DownloadConnections\<close> here and for the two speed options in the
  functions called; no line of the package reads \<open>DownloadTimeout\<close>.
\<close>

definition Download ::
  "download_env \<Rightarrow> int option \<Rightarrow> string \<Rightarrow> string \<Rightarrow> string \<Rightarrow> downloader_Options \<Rightarrow> files \<Rightarrow>
   (error + Result) \<times> files" where
  "Download E ctx url destDir filename opts fs =
     (let destPath = filepath_Join destDir filename;
          tempPath = destPath @ ''.tmp''
      in case http_Head E of
           HeadNewRequestError e \<Rightarrow> (Inl (Wrapped ''creating HEAD request'' e), fs)
         | HeadDoError e \<Rightarrow> (Inl (Wrapped ''HEAD request'' e), fs)
         | HeadResponse contentLength acceptRanges \<Rightarrow>
             let start = http_Head_took E
             in case download_either E ctx url tempPath contentLength acceptRanges opts fs start of
                  (totalBytes, Some err, fs1, t) \<Rightarrow> (Inl err, fs_Remove tempPath fs1)
                | (totalBytes, None, fs1, t) \<Rightarrow>
                    (case os_Rename E tempPath destPath fs1 of
                       (Some err, fs2) \<Rightarrow>
                         (Inl (Wrapped ''renaming temp file'' err), fs_Remove tempPath fs2)
                     | (None, fs2) \<Rightarrow>
                         (Inr \<lparr>FilePath = destPath, Bytes = totalBytes, Duration = t - start\<rparr>,
                          fs2)))"

section \<open>Sorting the discovered nodes (internal/discovery/discovery.go, sortNodes)\<close>

text \<open>
  \<open>sortNodes\<close> hands the slice to \<^verbatim>\<open>sort.Slice\<close> with a comparison of \<open>SlotAge\<close> when the sort
  order is \<^verbatim>\<open>"slot_age"\<close> and of \<open>Latency\<close> for every other string. The slice afterwards is
  what \<^verbatim>\<open>sort.Slice\<close> (the parameter \<open>srt\<close>) makes of it.
\<close>

definition sortNodes ::
  "((SnapshotNode \<Rightarrow> SnapshotNode \<Rightarrow> bool) \<Rightarrow> SnapshotNode list \<Rightarrow> 'r) \<Rightarrow>
   SnapshotNode list \<Rightarrow> string \<Rightarrow> 'r" where
  "sortNodes srt nodes sortOrder =
     srt (\<lambda>ni nj. if sortOrder = ''slot_age'' then SlotAge ni < SlotAge nj
                   else Latency ni < Latency nj) nodes"

section \<open>Go's implementation of sort.Slice\<close>


text \<open>
  The repository uses \<^verbatim>\<open>atomic.Int64\<close>, a type of Go 1.19, the release from which
  \<^verbatim>\<open>sort.Slice\<close> is pattern-defeating quicksort (\<^verbatim>\<open>sort/zsortfunc.go\<close> of the Go library).
  The slice is a list, an index a Go \<^verbatim>\<open>int\<close>; \<^verbatim>\<open>data.Less(i, j)\<close> compares the elements at
  \<open>i\<close> and \<open>j\<close>, \<^verbatim>\<open>data.Swap(i, j)\<close> exchanges them.
\<close>


definition data_Less :: "('a \<Rightarrow> 'a \<Rightarrow> bool) \<Rightarrow> 'a list \<Rightarrow> int \<Rightarrow> int \<Rightarrow> bool" where
  "data_Less lessf xs i j = lessf (xs ! nat i) (xs ! nat j)"


definition data_Swap :: "'a list \<Rightarrow> int \<Rightarrow> int \<Rightarrow> 'a list" where
  "data_Swap xs i j = xs[nat i := xs ! nat j, nat j := xs ! nat i]"


text \<open>
  \<^verbatim>\<open>insertionSort_func\<close>: \<^verbatim>\<open>for i := a + 1; i < b; i++\<close> around
  \<^verbatim>\<open>for j := i; j > a && data.Less(j, j-1); j-- { data.Swap(j, j-1) }\<close>.
\<close>


function insertion_inner :: "('a \<Rightarrow> 'a \<Rightarrow> bool) \<Rightarrow> int \<Rightarrow> int \<Rightarrow> 'a list \<Rightarrow> 'a list" where
  "insertion_inner lessf a j xs =
     (if j > a \<and> data_Less lessf xs j (j - 1)
      then insertion_inner lessf a (j - 1) (data_Swap xs j (j - 1)) else xs)"
  by pat_completeness auto

termination by (relation "measure (\<lambda>(lessf, a, j, xs). nat (j - a))") auto
declare insertion_inner.simps [simp del]


definition insertionSort_func :: "('a \<Rightarrow> 'a \<Rightarrow> bool) \<Rightarrow> 'a list \<Rightarrow> int \<Rightarrow> int \<Rightarrow> 'a list" where
  "insertionSort_func lessf xs a b = foldl (\<lambda>data i. insertion_inner lessf a i data) xs [a + 1..b - 1]"


text \<open>
  \<^verbatim>\<open>order2_func\<close>, \<^verbatim>\<open>median_func\<close>, \<^verbatim>\<open>medianAdjacent_func\<close> and \<^verbatim>\<open>choosePivot_func\<close>; the counter
  \<^verbatim>\<open>*swaps\<close> is passed and returned.
\<close>


definition order2_func :: "('a \<Rightarrow> 'a \<Rightarrow> bool) \<Rightarrow> 'a list \<Rightarrow> int \<Rightarrow> int \<Rightarrow> int \<Rightarrow> int \<times> int \<times> int" where
  "order2_func lessf xs a b swaps =
     (if data_Less lessf xs b a then (b, a, swaps + 1) else (a, b, swaps))"


definition median_func ::
  "('a \<Rightarrow> 'a \<Rightarrow> bool) \<Rightarrow> 'a list \<Rightarrow> int \<Rightarrow> int \<Rightarrow> int \<Rightarrow> int \<Rightarrow> int \<times> int" where
  "median_func lessf xs a b c swaps =
     (case order2_func lessf xs a b swaps of (a, b, swaps) \<Rightarrow>
      case order2_func lessf xs b c swaps of (b, c, swaps) \<Rightarrow>
      case order2_func lessf xs a b swaps of (a, b, swaps) \<Rightarrow> (b, swaps))"


definition medianAdjacent_func ::
  "('a \<Rightarrow> 'a \<Rightarrow> bool) \<Rightarrow> 'a list \<Rightarrow> int \<Rightarrow> int \<Rightarrow> int \<times> int" where
  "medianAdjacent_func lessf xs a swaps = median_func lessf xs (a - 1) a (a + 1) swaps"


datatype sortedHint = unknownHint | increasingHint | decreasingHint


definition choosePivot_func ::
  "('a \<Rightarrow> 'a \<Rightarrow> bool) \<Rightarrow> 'a list \<Rightarrow> int \<Rightarrow> int \<Rightarrow> int \<times> sortedHint" where
  "choosePivot_func lessf xs a b =
     (let l = b - a;
          i = a + l div 4 * 1;
          j = a + l div 4 * 2;
          k = a + l div 4 * 3;
          (j, swaps) =
            (if l \<ge> 8 then
               (if l \<ge> 50 then
                  (case medianAdjacent_func lessf xs i 0 of (i, swaps) \<Rightarrow>
                   case medianAdjacent_func lessf xs j swaps of (j, swaps) \<Rightarrow>
                   case medianAdjacent_func lessf xs k swaps of (k, swaps) \<Rightarrow>
                     median_func lessf xs i j k swaps)
                else median_func lessf xs i j k 0)
             else (j, 0))
      in if swaps = 0 then (j, increasingHint)
         else if swaps = 4 * 3 then (j, decreasingHint)
         else (j, unknownHint))"


text \<open>\<^verbatim>\<open>reverseRange_func\<close>: \<^verbatim>\<open>for i < j { data.Swap(i, j); i++; j-- }\<close> from \<open>a\<close> and \<open>b - 1\<close>.\<close>


function reverse_loop :: "'a list \<Rightarrow> int \<Rightarrow> int \<Rightarrow> 'a list" where
  "reverse_loop xs i j = (if i < j then reverse_loop (data_Swap xs i j) (i + 1) (j - 1) else xs)"
  by pat_completeness auto

termination by (relation "measure (\<lambda>(xs, i, j). nat (j - i))") auto
declare reverse_loop.simps [simp del]


definition reverseRange_func :: "'a list \<Rightarrow> int \<Rightarrow> int \<Rightarrow> 'a list" where
  "reverseRange_func xs a b = reverse_loop xs a (b - 1)"


text \<open>
  \<^verbatim>\<open>partialInsertionSort_func\<close>, with \<^verbatim>\<open>maxSteps = 5\<close> and \<^verbatim>\<open>shortestShifting = 50\<close>: its three
  inner loops, the exchange and the two shifts of one step, then the loop over the steps. It returns the slice and whether it is sorted.
\<close>


function advance_sorted :: "('a \<Rightarrow> 'a \<Rightarrow> bool) \<Rightarrow> 'a list \<Rightarrow> int \<Rightarrow> int \<Rightarrow> int" where
  "advance_sorted lessf xs i b =
     (if i < b \<and> \<not> data_Less lessf xs i (i - 1) then advance_sorted lessf xs (i + 1) b else i)"
  by pat_completeness auto

termination by (relation "measure (\<lambda>(lessf, xs, i, b). nat (b - i))") auto
declare advance_sorted.simps [simp del]


function shift_smaller :: "('a \<Rightarrow> 'a \<Rightarrow> bool) \<Rightarrow> int \<Rightarrow> 'a list \<Rightarrow> 'a list" where
  "shift_smaller lessf j xs =
     (if j \<ge> 1 then
        (if \<not> data_Less lessf xs j (j - 1) then xs
         else shift_smaller lessf (j - 1) (data_Swap xs j (j - 1)))
      else xs)"
  by pat_completeness auto

termination by (relation "measure (\<lambda>(lessf, j, xs). nat j)") auto
declare shift_smaller.simps [simp del]


function shift_greater :: "('a \<Rightarrow> 'a \<Rightarrow> bool) \<Rightarrow> int \<Rightarrow> int \<Rightarrow> 'a list \<Rightarrow> 'a list" where
  "shift_greater lessf b j xs =
     (if j < b then
        (if \<not> data_Less lessf xs j (j - 1) then xs
         else shift_greater lessf b (j + 1) (data_Swap xs j (j - 1)))
      else xs)"
  by pat_completeness auto

termination by (relation "measure (\<lambda>(lessf, b, j, xs). nat (b - j))") auto
declare shift_greater.simps [simp del]


definition shift_pair :: "('a \<Rightarrow> 'a \<Rightarrow> bool) \<Rightarrow> int \<Rightarrow> int \<Rightarrow> int \<Rightarrow> 'a list \<Rightarrow> 'a list" where
  "shift_pair lessf a b i xs =
     (let xs = data_Swap xs i (i - 1);
          xs = (if i - a \<ge> 2 then shift_smaller lessf (i - 1) xs else xs);
          xs = (if b - i \<ge> 2 then shift_greater lessf b (i + 1) xs else xs)
      in xs)"

function partial_steps ::
  "('a \<Rightarrow> 'a \<Rightarrow> bool) \<Rightarrow> int \<Rightarrow> int \<Rightarrow> nat \<Rightarrow> int \<Rightarrow> 'a list \<Rightarrow> 'a list \<times> bool" where
  "partial_steps lessf a b 0 i xs = (xs, False)"
| "partial_steps lessf a b (Suc steps) i xs =
     (let i' = advance_sorted lessf xs i b in
      if i' = b then (xs, True)
      else if b - a < 50 then (xs, False)
      else partial_steps lessf a b steps i' (shift_pair lessf a b i' xs))"
  by pat_completeness simp_all
termination by (relation "measure (\<lambda>(lessf, a, b, steps, i, xs). steps)") simp_all


definition partialInsertionSort_func ::
  "('a \<Rightarrow> 'a \<Rightarrow> bool) \<Rightarrow> 'a list \<Rightarrow> int \<Rightarrow> int \<Rightarrow> 'a list \<times> bool" where
  "partialInsertionSort_func lessf xs a b = partial_steps lessf a b 5 (a + 1) xs"


text \<open>
  \<^verbatim>\<open>partition_func\<close>. Its two scans are
  \<^verbatim>\<open>for i <= j && data.Less(i, a) { i++ }\<close> and \<^verbatim>\<open>for i <= j && !data.Less(j, a) { j-- }\<close>;
  \<open>partition_loop\<close> is its endless loop, left when \<open>i > j\<close>. It returns the slice, the
  new index of the pivot and whether the slice was already partitioned.
\<close>


function scan_less :: "('a \<Rightarrow> 'a \<Rightarrow> bool) \<Rightarrow> 'a list \<Rightarrow> int \<Rightarrow> int \<Rightarrow> int \<Rightarrow> int" where
  "scan_less lessf xs a i j =
     (if i \<le> j \<and> data_Less lessf xs i a then scan_less lessf xs a (i + 1) j else i)"
  by pat_completeness auto

termination by (relation "measure (\<lambda>(lessf, xs, a, i, j). nat (j + 1 - i))") auto
declare scan_less.simps [simp del]


function scan_not_less :: "('a \<Rightarrow> 'a \<Rightarrow> bool) \<Rightarrow> 'a list \<Rightarrow> int \<Rightarrow> int \<Rightarrow> int \<Rightarrow> int" where
  "scan_not_less lessf xs a i j =
     (if i \<le> j \<and> \<not> data_Less lessf xs j a then scan_not_less lessf xs a i (j - 1) else j)"
  by pat_completeness auto

termination by (relation "measure (\<lambda>(lessf, xs, a, i, j). nat (j + 1 - i))") auto
declare scan_not_less.simps [simp del]


function partition_loop ::
  "('a \<Rightarrow> 'a \<Rightarrow> bool) \<Rightarrow> 'a list \<Rightarrow> int \<Rightarrow> int \<Rightarrow> int \<Rightarrow> 'a list \<times> int" where
  "partition_loop lessf xs a i j =
     (let i' = scan_less lessf xs a i j;
          j' = scan_not_less lessf xs a i' j
      in if i' > j' then (xs, j')
         else partition_loop lessf (data_Swap xs i' j') a (i' + 1) (j' - 1))"
  by pat_completeness auto
termination
proof (relation "measure (\<lambda>(lessf, xs, a, i, j). nat (j + 1 - i))")
  show "wf (measure (\<lambda>(lessf :: 'a \<Rightarrow> 'a \<Rightarrow> bool, xs :: 'a list, a :: int, i :: int, j :: int). nat (j + 1 - i)))"
    by simp
next
  fix lessf :: "'a \<Rightarrow> 'a \<Rightarrow> bool" and xs :: "'a list" and a i j i' j' :: int
  assume i': "i' = scan_less lessf xs a i j" and j': "j' = scan_not_less lessf xs a i' j"
    and le: "\<not> j' < i'"
  have "i \<le> scan_less lessf xs a i j"
    by (induction lessf xs a i j rule: scan_less.induct) (subst scan_less.simps, auto)
  moreover have "scan_not_less lessf xs a i' j \<le> j"
    by (induction lessf xs a i' j rule: scan_not_less.induct) (subst scan_not_less.simps, auto)
  ultimately show "((lessf, data_Swap xs i' j', a, i' + 1, j' - 1), (lessf, xs, a, i, j))
      \<in> measure (\<lambda>(lessf, xs, a, i, j). nat (j + 1 - i))"
    using i' j' le by simp
qed
declare partition_loop.simps [simp del]


definition partition_func ::
  "('a \<Rightarrow> 'a \<Rightarrow> bool) \<Rightarrow> 'a list \<Rightarrow> int \<Rightarrow> int \<Rightarrow> int \<Rightarrow> 'a list \<times> int \<times> bool" where
  "partition_func lessf xs a b pivot =
     (let xs = data_Swap xs a pivot;
          i = scan_less lessf xs a (a + 1) (b - 1);
          j = scan_not_less lessf xs a i (b - 1)
      in if i > j then (data_Swap xs j a, j, True)
         else
           (case partition_loop lessf (data_Swap xs i j) a (i + 1) (j - 1) of
              (xs, j) \<Rightarrow> (data_Swap xs j a, j, False)))"


text \<open>
  \<^verbatim>\<open>partitionEqual_func\<close>, whose scans are \<^verbatim>\<open>for i <= j && !data.Less(a, i) { i++ }\<close> and
  \<^verbatim>\<open>for i <= j && data.Less(a, j) { j-- }\<close>. It returns the slice and the index \<open>i\<close>.
\<close>


function scan_not_greater :: "('a \<Rightarrow> 'a \<Rightarrow> bool) \<Rightarrow> 'a list \<Rightarrow> int \<Rightarrow> int \<Rightarrow> int \<Rightarrow> int" where
  "scan_not_greater lessf xs a i j =
     (if i \<le> j \<and> \<not> data_Less lessf xs a i then scan_not_greater lessf xs a (i + 1) j else i)"
  by pat_completeness auto

termination by (relation "measure (\<lambda>(lessf, xs, a, i, j). nat (j + 1 - i))") auto
declare scan_not_greater.simps [simp del]


function scan_greater :: "('a \<Rightarrow> 'a \<Rightarrow> bool) \<Rightarrow> 'a list \<Rightarrow> int \<Rightarrow> int \<Rightarrow> int \<Rightarrow> int" where
  "scan_greater lessf xs a i j =
     (if i \<le> j \<and> data_Less lessf xs a j then scan_greater lessf xs a i (j - 1) else j)"
  by pat_completeness auto

termination by (relation "measure (\<lambda>(lessf, xs, a, i, j). nat (j + 1 - i))") auto
declare scan_greater.simps [simp del]


function partitionEqual_loop ::
  "('a \<Rightarrow> 'a \<Rightarrow> bool) \<Rightarrow> 'a list \<Rightarrow> int \<Rightarrow> int \<Rightarrow> int \<Rightarrow> 'a list \<times> int" where
  "partitionEqual_loop lessf xs a i j =
     (let i' = scan_not_greater lessf xs a i j;
          j' = scan_greater lessf xs a i' j
      in if i' > j' then (xs, i')
         else partitionEqual_loop lessf (data_Swap xs i' j') a (i' + 1) (j' - 1))"
  by pat_completeness auto
termination
proof (relation "measure (\<lambda>(lessf, xs, a, i, j). nat (j + 1 - i))")
  show "wf (measure (\<lambda>(lessf :: 'a \<Rightarrow> 'a \<Rightarrow> bool, xs :: 'a list, a :: int, i :: int, j :: int). nat (j + 1 - i)))"
    by simp
next
  fix lessf :: "'a \<Rightarrow> 'a \<Rightarrow> bool" and xs :: "'a list" and a i j i' j' :: int
  assume i': "i' = scan_not_greater lessf xs a i j" and j': "j' = scan_greater lessf xs a i' j"
    and le: "\<not> j' < i'"
  have "i \<le> scan_not_greater lessf xs a i j"
    by (induction lessf xs a i j rule: scan_not_greater.induct) (subst scan_not_greater.simps, auto)
  moreover have "scan_greater lessf xs a i' j \<le> j"
    by (induction lessf xs a i' j rule: scan_greater.induct) (subst scan_greater.simps, auto)
  ultimately show "((lessf, data_Swap xs i' j', a, i' + 1, j' - 1), (lessf, xs, a, i, j))
      \<in> measure (\<lambda>(lessf, xs, a, i, j). nat (j + 1 - i))"
    using i' j' le by simp
qed
declare partitionEqual_loop.simps [simp del]


definition partitionEqual_func ::
  "('a \<Rightarrow> 'a \<Rightarrow> bool) \<Rightarrow> 'a list \<Rightarrow> int \<Rightarrow> int \<Rightarrow> int \<Rightarrow> 'a list \<times> int" where
  "partitionEqual_func lessf xs a b pivot =
     partitionEqual_loop lessf (data_Swap xs a pivot) a (a + 1) (b - 1)"


text \<open>
  \<^verbatim>\<open>pdqsort_func\<close>, with \<^verbatim>\<open>maxInsertion = 12\<close>. Its loop and its recursive call are one
  recursion, bounded by a number of steps: the result is \<open>None\<close> when they run out. The
  model follows a run whose partitions are all balanced. A run that reaches
  \<^verbatim>\<open>breakPatterns_func\<close> (after an unbalanced partition) or \<^verbatim>\<open>heapSort_func\<close> (when \<open>limit\<close>,
  which only pattern breaking lowers, is 0) is not followed: the result is \<open>None\<close> as well.
  The recursive call sorts the shorter side with both flags set anew; the loop goes on
  with the other side.
\<close>


function pdqsort_func ::
  "nat \<Rightarrow> ('a \<Rightarrow> 'a \<Rightarrow> bool) \<Rightarrow> 'a list \<Rightarrow> int \<Rightarrow> int \<Rightarrow> int \<Rightarrow> bool \<Rightarrow> bool \<Rightarrow> 'a list option" where
  "pdqsort_func 0 lessf xs a b limit wasBalanced wasPartitioned = None"
| "pdqsort_func (Suc steps) lessf xs a b limit wasBalanced wasPartitioned =
     (let length = b - a in
      if length \<le> 12 then Some (insertionSort_func lessf xs a b)
      else if limit = 0 then None
      else if \<not> wasBalanced then None
      else
        (case choosePivot_func lessf xs a b of (pivot, hint) \<Rightarrow>
         case (if hint = decreasingHint
               then (reverseRange_func xs a b, (b - 1) - (pivot - a), increasingHint)
               else (xs, pivot, hint)) of (xs, pivot, hint) \<Rightarrow>
         case (if wasBalanced \<and> wasPartitioned \<and> hint = increasingHint
               then partialInsertionSort_func lessf xs a b else (xs, False)) of
           (xs, True) \<Rightarrow> Some xs
         | (xs, False) \<Rightarrow>
             if a > 0 \<and> \<not> data_Less lessf xs (a - 1) pivot then
               (case partitionEqual_func lessf xs a b pivot of (xs, mid) \<Rightarrow>
                  pdqsort_func steps lessf xs mid b limit wasBalanced wasPartitioned)
             else
               (case partition_func lessf xs a b pivot of (xs, mid, alreadyPartitioned) \<Rightarrow>
                  let leftLen = mid - a;
                      rightLen = b - mid;
                      balanceThreshold = length div 8
                  in if leftLen < rightLen then
                       (case pdqsort_func steps lessf xs a mid limit True True of
                          None \<Rightarrow> None
                        | Some xs \<Rightarrow>
                            pdqsort_func steps lessf xs (mid + 1) b limit
                              (leftLen \<ge> balanceThreshold) alreadyPartitioned)
                     else
                       (case pdqsort_func steps lessf xs (mid + 1) b limit True True of
                          None \<Rightarrow> None
                        | Some xs \<Rightarrow>
                            pdqsort_func steps lessf xs a mid limit
                              (rightLen \<ge> balanceThreshold) alreadyPartitioned))))"
  by pat_completeness simp_all
termination
  by (relation "measure (\<lambda>(steps, lessf, xs, a, b, limit, wasBalanced, wasPartitioned). steps)")
    simp_all
declare pdqsort_func.simps [simp del]


text \<open>
  \<^verbatim>\<open>sort.Slice\<close>: \<^verbatim>\<open>limit := bits.Len(uint(length))\<close>, then \<^verbatim>\<open>pdqsort_func\<close> on the whole slice.
\<close>


fun bits_Len :: "nat \<Rightarrow> nat" where
  "bits_Len n = (if n = 0 then 0 else Suc (bits_Len (n div 2)))"


definition sort_Slice :: "nat \<Rightarrow> ('a \<Rightarrow> 'a \<Rightarrow> bool) \<Rightarrow> 'a list \<Rightarrow> 'a list option" where
  "sort_Slice steps lessf xs =
     pdqsort_func steps lessf xs 0 (int (length xs)) (int (bits_Len (length xs))) True True"

section \<open>The freshness decision table, as the specification words it\<close>

text \<open>
  The inventory the assessor works on: \<open>None\<close> when the directory cannot be read,
  otherwise the parsed snapshot files. \<open>freshness_table\<close> is the decision table of the
  specification (first match wins), with the newest local slot as the maximum over all
  files and the newest full as the maximum over the full snapshots; it is compared with
  \<open>assessFreshness\<close> below.
\<close>

definition local_inventory :: "string \<Rightarrow> dir_state \<Rightarrow> SnapshotFile list option" where
  "local_inventory snapshotDir st =
     (case GetLocalSnapshots snapshotDir st of Inl err \<Rightarrow> None | Inr snaps \<Rightarrow> Some snaps)"

definition freshness_table ::
  "SnapshotFile list option \<Rightarrow> int \<Rightarrow> uint64 \<Rightarrow> downloadMode \<times> uint64" where
  "freshness_table inventory skip_threshold T =
     (case inventory of
        None \<Rightarrow> (modeFull, 0)
      | Some snaps \<Rightarrow>
          if snaps = [] then (modeFull, 0)
          else if Max (Slot ` set snaps) \<ge> T then (modeSkip, 0)
          else if uint T - uint (Max (Slot ` set snaps)) \<le> skip_threshold then (modeSkip, 0)
          else if filter IsFull snaps \<noteq> []
            then (modeIncremental, Max (Slot ` set (filter IsFull snaps)))
          else (modeFull, 0))"

text \<open>
  One step of the loop of \<^verbatim>\<open>NewestFullSnapshot\<close>, for any selection predicate and
  key; it only serves the proofs.
\<close>

definition pick_newer :: "('b \<Rightarrow> bool) \<Rightarrow> ('b \<Rightarrow> 'a::linorder) \<Rightarrow> 'b option \<Rightarrow> 'b \<Rightarrow> 'b option" where
  "pick_newer P f newest s =
     (if P s \<and> (case newest of None \<Rightarrow> True | Some n \<Rightarrow> f s > f n) then Some s else newest)"

section \<open>Properties of the local inventory\<close>

lemma if_less_max: "(if (a::'a::linorder) < b then b else a) = max a b"
  by (cases "a < b") (auto simp: max_def)

lemma Max_insert_max:
  fixes a b :: "'a::linorder"
  assumes "finite A"
  shows "Max (insert (max a b) A) = Max (insert a (insert b A))"
proof (cases "A = {}")
  case True
  then show ?thesis by simp
next
  case False
  with assms show ?thesis by (simp add: max.assoc)
qed

lemma foldl_running_max:
  fixes f :: "'b \<Rightarrow> 'a::linorder"
  shows "foldl (\<lambda>newest s. if f s > newest then f s else newest) a xs = Max (insert a (f ` set xs))"
proof (induction xs arbitrary: a)
  case Nil
  then show ?case by simp
next
  case (Cons x xs)
  have "Max (insert (max a (f x)) (f ` set xs)) = Max (insert a (insert (f x) (f ` set xs)))"
    by (rule Max_insert_max) simp
  with Cons show ?case by (simp add: if_less_max)
qed

lemma Max_insert_bot:
  fixes a :: "'a::linorder"
  assumes "finite A" "A \<noteq> {}" "\<forall>x\<in>A. a \<le> x"
  shows "Max (insert a A) = Max A"
proof -
  have "a \<le> Max A" using assms by (meson Max_in)
  then show ?thesis using assms by (simp add: max_absorb2)
qed

lemma NewestSlot_Max: "snapshots \<noteq> [] \<Longrightarrow> NewestSlot snapshots = Max (Slot ` set snapshots)"
  unfolding NewestSlot_def foldl_running_max
  by (rule Max_insert_bot) simp_all

lemma foldl_pick_newer_Some:
  "P n \<Longrightarrow> \<exists>m. foldl (pick_newer P f) (Some n) xs = Some m \<and> P m \<and>
      f m = Max (insert (f n) (f ` set (filter P xs)))"
proof (induction xs arbitrary: n)
  case Nil
  then show ?case by simp
next
  case (Cons x xs)
  let ?A = "f ` set (filter P xs)"
  have fin: "finite ?A" by simp
  show ?case
  proof (cases "P x \<and> f x > f n")
    case True
    then have px: "P x" and lt: "f n < f x" by simp_all
    from Cons.IH[OF px] obtain m where m1: "foldl (pick_newer P f) (Some x) xs = Some m"
      and m2: "P m" and m3: "f m = Max (insert (f x) ?A)" by blast
    have mx: "max (f n) (f x) = f x" using lt by (simp only: max_absorb2 less_imp_le)
    have img: "f ` set (filter P (x # xs)) = insert (f x) ?A" using px by simp
    have "Max (insert (f n) (insert (f x) ?A)) = Max (insert (f x) ?A)"
      using Max_insert_max[OF fin, of "f n" "f x"] unfolding mx by (rule sym)
    then have m3': "f m = Max (insert (f n) (f ` set (filter P (x # xs))))"
      unfolding img using m3 by (rule ssubst)
    have step: "foldl (pick_newer P f) (Some n) (x # xs) = foldl (pick_newer P f) (Some x) xs"
      using True by (simp add: pick_newer_def)
    show ?thesis unfolding step using m1 m2 m3' by blast
  next
    case False
    from Cons.IH[OF Cons.prems] obtain m where m1: "foldl (pick_newer P f) (Some n) xs = Some m"
      and m2: "P m" and m3: "f m = Max (insert (f n) ?A)" by blast
    have step: "foldl (pick_newer P f) (Some n) (x # xs) = foldl (pick_newer P f) (Some n) xs"
      using False by (cases "P x") (simp_all add: pick_newer_def)
    have m3': "f m = Max (insert (f n) (f ` set (filter P (x # xs))))"
    proof (cases "P x")
      case True
      with False have "f x \<le> f n" by (simp only: not_less simp_thms)
      then have mx: "max (f n) (f x) = f n" by (simp only: max_absorb1)
      have img: "f ` set (filter P (x # xs)) = insert (f x) ?A" using True by simp
      have "Max (insert (f n) (insert (f x) ?A)) = Max (insert (f n) ?A)"
        using Max_insert_max[OF fin, of "f n" "f x"] unfolding mx by (rule sym)
      then show ?thesis unfolding img using m3 by (rule ssubst)
    next
      case False
      then have "f ` set (filter P (x # xs)) = ?A" by simp
      then show ?thesis using m3 by (rule ssubst)
    qed
    show ?thesis unfolding step using m1 m2 m3' by blast
  qed
qed

lemma foldl_pick_newer_no:
  "filter P xs = [] \<Longrightarrow> foldl (pick_newer P f) None xs = None"
proof (induction xs)
  case Nil
  then show ?case by simp
next
  case (Cons x xs)
  have nx: "\<not> P x" using Cons.prems by (cases "P x") simp_all
  then have "filter P xs = []" using Cons.prems by simp
  then have ih: "foldl (pick_newer P f) None xs = None" by (rule Cons.IH)
  have "foldl (pick_newer P f) None (x # xs) = foldl (pick_newer P f) None xs"
    using nx by (simp add: pick_newer_def)
  then show ?case unfolding ih .
qed

lemma foldl_pick_newer_some:
  "filter P xs \<noteq> [] \<Longrightarrow>
     \<exists>m. foldl (pick_newer P f) None xs = Some m \<and> P m \<and> f m = Max (f ` set (filter P xs))"
proof (induction xs)
  case Nil
  then show ?case by simp
next
  case (Cons x xs)
  show ?case
  proof (cases "P x")
    case True
    from foldl_pick_newer_Some[of P x f xs, OF True] obtain m where
      m1: "foldl (pick_newer P f) (Some x) xs = Some m" and m2: "P m"
      and m3: "f m = Max (insert (f x) (f ` set (filter P xs)))" by blast
    have step: "foldl (pick_newer P f) None (x # xs) = foldl (pick_newer P f) (Some x) xs"
      using True by (simp add: pick_newer_def)
    have img: "f ` set (filter P (x # xs)) = insert (f x) (f ` set (filter P xs))"
      using True by simp
    show ?thesis unfolding step img using m1 m2 m3 by blast
  next
    case False
    have step: "foldl (pick_newer P f) None (x # xs) = foldl (pick_newer P f) None xs"
      using False by (simp add: pick_newer_def)
    have flt: "filter P (x # xs) = filter P xs" using False by simp
    from Cons.prems have "filter P xs \<noteq> []" unfolding flt .
    from Cons.IH[OF this] show ?thesis unfolding step flt .
  qed
qed

lemma NewestFullSnapshot_fold:
  "NewestFullSnapshot snapshots = foldl (pick_newer IsFull Slot) None snapshots"
  unfolding NewestFullSnapshot_def pick_newer_def[abs_def] ..

lemma NewestFullSnapshot_None:
  "filter IsFull snapshots = [] \<Longrightarrow> NewestFullSnapshot snapshots = None"
  unfolding NewestFullSnapshot_fold by (rule foldl_pick_newer_no)

lemma NewestFullSnapshot_Some:
  "filter IsFull snapshots \<noteq> [] \<Longrightarrow>
     \<exists>m. NewestFullSnapshot snapshots = Some m \<and> IsFull m \<and>
         Slot m = Max (Slot ` set (filter IsFull snapshots))"
  unfolding NewestFullSnapshot_fold by (rule foldl_pick_newer_some)

lemma age_le_threshold:
  fixes T n :: uint64
  assumes "0 \<le> M" "M < 2 ^ 63" "n < T"
  shows "T - n \<le> word_of_int M \<longleftrightarrow> uint T - uint n \<le> M"
proof -
  have "M < 2 ^ 64" using assms(2) by simp
  then have "uint (word_of_int M :: uint64) = M"
    using assms(1) by (simp add: uint_word_of_int take_bit_int_eq_self)
  moreover have "uint n \<le> uint T" using assms(3) by (simp add: word_less_def)
  then have "uint (T - n) = uint T - uint n"
    using uint_sub_lem[of n T] by simp
  ultimately show ?thesis by (simp add: word_le_def)
qed


section \<open>Freshness assessment follows the decision table\<close>

text \<open>
  C1. For every state of the snapshot directory and every cluster tip \<open>T\<close>,
  \<open>assessFreshness\<close> returns the first matching row of the decision table and never an
  error: an unreadable directory gives (full, 0); an empty inventory gives (full, 0); a
  newest local slot (over fulls and incrementals) at or above \<open>T\<close> gives (skip, 0); a
  distance \<open>T - newest\<close> within the configured \<open>max_incremental_slots\<close> gives (skip, 0);
  otherwise a local full gives (incremental, slot of the newest full), and no local full
  gives (full, 0). The configured threshold is a non-negative Go \<^verbatim>\<open>int\<close>.
\<close>

theorem assessFreshness_decision_table:
  assumes "0 \<le> max_incremental_slots" and "max_incremental_slots < 2 ^ 63"
  shows "assessFreshness snapshotDir max_incremental_slots st T =
           (fst (freshness_table (local_inventory snapshotDir st) max_incremental_slots T),
            snd (freshness_table (local_inventory snapshotDir st) max_incremental_slots T),
            None)"
proof (cases "GetLocalSnapshots snapshotDir st")
  case (Inl err)
  then show ?thesis
    by (simp add: assessFreshness_def local_inventory_def freshness_table_def)
next
  case (Inr snaps)
  show ?thesis
  proof (cases "snaps = []")
    case True
    with Inr show ?thesis
      by (simp add: assessFreshness_def local_inventory_def freshness_table_def)
  next
    case False
    note ne = this
    have ns: "NewestSlot snaps = Max (Slot ` set snaps)" using NewestSlot_Max[OF ne] .
    show ?thesis
    proof (cases "Max (Slot ` set snaps) \<ge> T")
      case True
      with Inr ne ns show ?thesis
        by (simp add: assessFreshness_def local_inventory_def freshness_table_def Let_def)
    next
      case False
      then have lt: "Max (Slot ` set snaps) < T" by (simp only: not_le)
      note thr = age_le_threshold[OF assms lt]
      show ?thesis
      proof (cases "filter IsFull snaps = []")
        case True
        with Inr ne ns False thr NewestFullSnapshot_None[OF True] show ?thesis
          by (simp add: assessFreshness_def local_inventory_def freshness_table_def Let_def)
      next
        case nf: False
        from NewestFullSnapshot_Some[OF nf] obtain m where
          "NewestFullSnapshot snaps = Some m" "Slot m = Max (Slot ` set (filter IsFull snaps))" by blast
        with Inr ne ns False thr nf show ?thesis
          by (simp add: assessFreshness_def local_inventory_def freshness_table_def Let_def)
      qed
    qed
  qed
qed

theorem assessFreshness_decision_table_witness:
  "(0 :: int) \<le> 1300 \<and> (1300 :: int) < 2 ^ 63 \<and>
   assessFreshness ''/snapshots'' 1300
     (Some [\<lparr>Name = ''snapshot-97000-Hash.tar.zst'', IsDir = False\<rparr>,
            \<lparr>Name = ''incremental-snapshot-97000-97500-Inc.tar.zst'', IsDir = False\<rparr>,
            \<lparr>Name = ''snapshot-96000-Old.tar.zst'', IsDir = False\<rparr>])
     100000 = (modeIncremental, 97000, None)"
proof -
  have h1: "(0 :: int) \<le> 1300" and h2: "(1300 :: int) < 2 ^ 63" by simp_all
  have tab: "freshness_table (local_inventory ''/snapshots''
     (Some [\<lparr>Name = ''snapshot-97000-Hash.tar.zst'', IsDir = False\<rparr>,
            \<lparr>Name = ''incremental-snapshot-97000-97500-Inc.tar.zst'', IsDir = False\<rparr>,
            \<lparr>Name = ''snapshot-96000-Old.tar.zst'', IsDir = False\<rparr>])) 1300 100000
      = (modeIncremental, 97000)"
    by code_simp
  show ?thesis
    using assessFreshness_decision_table[OF h1 h2, of "''/snapshots''"
       "Some [\<lparr>Name = ''snapshot-97000-Hash.tar.zst'', IsDir = False\<rparr>,
            \<lparr>Name = ''incremental-snapshot-97000-97500-Inc.tar.zst'', IsDir = False\<rparr>,
            \<lparr>Name = ''snapshot-96000-Old.tar.zst'', IsDir = False\<rparr>]" 100000]
    unfolding tab by simp
qed

section \<open>Insertion sort meets the contract of sort.Slice\<close>

text \<open>
  For a comparison that is asymmetric and whose negation is transitive, as comparing a
  key of a linear order is, insertion sort permutes and sorts.
\<close>

lemma mset_insert_left: "mset (insert_left lessf x ys) = add_mset x (mset ys)"
  by (induction ys) simp_all

lemma set_insert_left: "set (insert_left lessf x ys) = insert x (set ys)"
  by (induction ys) auto

lemma sorted_insert_left:
  assumes asym: "\<And>a b. lessf a b \<Longrightarrow> \<not> lessf b a"
    and ntrans: "\<And>a b c. \<not> lessf a b \<Longrightarrow> \<not> lessf b c \<Longrightarrow> \<not> lessf a c"
  shows "sorted_wrt (\<lambda>a b. \<not> lessf a b) ys \<Longrightarrow>
         sorted_wrt (\<lambda>a b. \<not> lessf a b) (insert_left lessf x ys)"
proof (induction ys)
  case Nil
  then show ?case by simp
next
  case (Cons y ys)
  show ?case
  proof (cases "lessf x y")
    case True
    from Cons have "sorted_wrt (\<lambda>a b. \<not> lessf a b) (insert_left lessf x ys)"
      and "\<forall>z \<in> set ys. \<not> lessf y z" by simp_all
    moreover from True have "\<not> lessf y x" by (rule asym)
    ultimately show ?thesis using True by (simp add: set_insert_left)
  next
    case False
    from Cons.prems have "\<forall>z \<in> set ys. \<not> lessf y z" by simp
    with False have "\<forall>z \<in> set ys. \<not> lessf x z" using ntrans by blast
    with False Cons.prems show ?thesis by simp
  qed
qed

lemma insertionSort_fold:
  assumes asym: "\<And>a b. lessf a b \<Longrightarrow> \<not> lessf b a"
    and ntrans: "\<And>a b c. \<not> lessf a b \<Longrightarrow> \<not> lessf b c \<Longrightarrow> \<not> lessf a c"
  shows "sorted_wrt (\<lambda>a b. \<not> lessf a b) acc \<Longrightarrow>
     sorted_wrt (\<lambda>a b. \<not> lessf a b) (foldl (\<lambda>sorted_rev x. insert_left lessf x sorted_rev) acc xs) \<and>
     mset (foldl (\<lambda>sorted_rev x. insert_left lessf x sorted_rev) acc xs) = mset acc + mset xs"
proof (induction xs arbitrary: acc)
  case Nil
  then show ?case by simp
next
  case (Cons x xs)
  have "sorted_wrt (\<lambda>a b. \<not> lessf a b) (insert_left lessf x acc)"
    using asym ntrans Cons.prems by (rule sorted_insert_left[where lessf = lessf])
  from Cons.IH[OF this] show ?case by (simp add: mset_insert_left)
qed

lemma insertionSort_spec:
  assumes asym: "\<And>a b. lessf a b \<Longrightarrow> \<not> lessf b a"
    and ntrans: "\<And>a b c. \<not> lessf a b \<Longrightarrow> \<not> lessf b c \<Longrightarrow> \<not> lessf a c"
  shows "sort_Slice_spec insertionSort lessf"
proof -
  have "mset (insertionSort lessf xs) = mset xs \<and>
        sorted_wrt (\<lambda>a b. \<not> lessf b a) (insertionSort lessf xs)" for xs
    using insertionSort_fold[where lessf = lessf and acc = "[]" and xs = xs, OF asym ntrans]
    by (simp add: insertionSort_def sorted_wrt_rev)
  then show ?thesis unfolding sort_Slice_spec_def by blast
qed

lemma insertionSort_spec_desc:
  "sort_Slice_spec insertionSort (\<lambda>a b. (f a :: 'k :: linorder) > f b)"
  by (rule insertionSort_spec) auto

lemma insertionSort_spec_asc:
  "sort_Slice_spec insertionSort (\<lambda>a b. (f a :: 'k :: linorder) < f b)"
  by (rule insertionSort_spec) auto
section \<open>Prune keeps the newest full snapshot and its newest incremental\<close>

lemma map_filter_Cons_Some [simp]: "f x = Some y \<Longrightarrow> List.map_filter f (x # xs) = y # List.map_filter f xs"
  by (simp add: List.map_filter_def)

lemma map_filter_Cons_None [simp]: "f x = None \<Longrightarrow> List.map_filter f (x # xs) = List.map_filter f xs"
  by (simp add: List.map_filter_def)

lemma map_filter_Nil [simp]: "List.map_filter f [] = []"
  by (simp add: List.map_filter_def)

lemma map_filter_Cons: "List.map_filter f (x # xs) = opt_list (f x) @ List.map_filter f xs"
  by (cases "f x") (simp_all add: opt_list_def)

lemma prune_scan_step:
  "prune_scan d (F, I, T) e =
     (F @ opt_list (prune_full d e), I @ opt_list (prune_incremental d e),
      T @ opt_list (prune_temp d e))"
proof (cases "IsDir e")
  case True
  then show ?thesis
    by (simp add: prune_scan_def prune_full_def prune_incremental_def prune_temp_def opt_list_def)
next
  case nd: False
  show ?thesis
  proof (cases "tempFileRe (Name e)")
    case True
    with nd show ?thesis
      by (simp add: prune_scan_def prune_full_def prune_incremental_def prune_temp_def opt_list_def)
  next
    case False
    with nd show ?thesis
      by (cases "pruner_fullSnapshotRe (Name e)"; cases "pruner_incrementalSnapshotRe (Name e)")
         (simp_all add: prune_scan_def prune_full_def prune_incremental_def prune_temp_def opt_list_def)
  qed
qed

lemma prune_scan_fold:
  "foldl (prune_scan d) (F, I, T) es =
     (F @ List.map_filter (prune_full d) es,
      I @ List.map_filter (prune_incremental d) es,
      T @ List.map_filter (prune_temp d) es)"
proof (induction es arbitrary: F I T)
  case Nil
  then show ?case by simp
next
  case (Cons e es)
  show ?case by (simp only: foldl_Cons prune_scan_step Cons map_filter_Cons append_assoc)
qed

lemma foldl_os_Remove:
  "foldl (\<lambda>s p. os_Remove d p s) st ps = filter (\<lambda>e. filepath_Join d (Name e) \<notin> set ps) st"
proof (induction ps arbitrary: st)
  case Nil
  then show ?case by simp
next
  case (Cons p ps)
  have "filter (\<lambda>e. filepath_Join d (Name e) \<notin> set ps) (os_Remove d p st)
      = filter (\<lambda>e. filepath_Join d (Name e) \<notin> set (p # ps)) st"
    unfolding os_Remove_def filter_filter by (rule filter_cong) auto
  with Cons show ?case by simp
qed

lemma foldl_os_Remove_Path:
  "foldl (\<lambda>s f. os_Remove d (Path f) s) st fs = filter (\<lambda>e. filepath_Join d (Name e) \<notin> Path ` set fs) st"
proof -
  have "foldl (\<lambda>s f. os_Remove d (Path f) s) st fs = foldl (\<lambda>s p. os_Remove d p s) st (map Path fs)"
    by (induction fs arbitrary: st) simp_all
  then show ?thesis by (simp add: foldl_os_Remove)
qed

lemma prune_incrementals_filter:
  "prune_incrementals d nf kept incs st =
     filter (\<lambda>e. filepath_Join d (Name e) \<notin> Path ` set (dropped nf kept incs)) st"
proof (induction incs arbitrary: kept st)
  case Nil
  then show ?case by simp
next
  case (Cons i r)
  have rm: "filter (\<lambda>e. filepath_Join d (Name e) \<notin> Path ` set xs) (os_Remove d (Path i) st)
      = filter (\<lambda>e. filepath_Join d (Name e) \<notin> Path ` set (i # xs)) st" for xs
    unfolding os_Remove_def filter_filter by (rule filter_cong) auto
  show ?case
    by (cases "BaseSlot i \<noteq> Slot nf"; cases kept) (simp_all add: Cons rm del: set_simps)
qed

lemma dropped_True: "dropped nf True incs = incs"
  by (induction incs) simp_all

lemma dropped_False:
  "dropped nf False incs =
     (case filter (\<lambda>i. BaseSlot i = Slot nf) incs of
        [] \<Rightarrow> incs
      | k # _ \<Rightarrow> remove1 k incs)"
proof (induction incs)
  case Nil
  then show ?case by simp
next
  case (Cons i r)
  show ?case
  proof (cases "BaseSlot i = Slot nf")
    case True
    then show ?thesis by (simp add: dropped_True)
  next
    case False
    show ?thesis
    proof (cases "filter (\<lambda>i. BaseSlot i = Slot nf) r")
      case Nil
      with False Cons show ?thesis by simp
    next
      case (Cons k ks)
      then have "k \<in> set (filter (\<lambda>i. BaseSlot i = Slot nf) r)" by simp
      then have "BaseSlot k = Slot nf" by simp
      with False have "k \<noteq> i" by auto
      with False Cons.IH Cons show ?thesis by simp
    qed
  qed
qed

lemma filepath_Join_inject: "filepath_Join d a = filepath_Join d b \<Longrightarrow> a = b"
  by (simp add: filepath_Join_def)

lemma entry_of_path:
  assumes "distinct (map Name es)" "e \<in> set es" "e' \<in> set es"
    "filepath_Join d (Name e) = filepath_Join d (Name e')"
  shows "e = e'"
proof -
  have "Name e = Name e'" using assms(4) by (rule filepath_Join_inject)
  moreover have "inj_on Name (set es)" using assms(1) by (simp add: distinct_map)
  ultimately show ?thesis using assms(2,3) by (simp add: inj_on_def)
qed

lemma prune_full_Path: "prune_full d e = Some f \<Longrightarrow> Path f = filepath_Join d (Name e)"
  by (auto simp: prune_full_def split: if_splits option.splits)

lemma prune_incremental_Path: "prune_incremental d e = Some f \<Longrightarrow> Path f = filepath_Join d (Name e)"
  by (auto simp: prune_incremental_def split: if_splits option.splits)

lemma prune_temp_Path: "prune_temp d e = Some p \<Longrightarrow> p = filepath_Join d (Name e)"
  by (auto simp: prune_temp_def split: if_splits)

lemma prune_classes:
  "prune_temp d e \<noteq> None \<Longrightarrow> prune_full d e = None \<and> prune_incremental d e = None"
  "prune_full d e \<noteq> None \<Longrightarrow> prune_incremental d e = None \<and> prune_temp d e = None"
  "prune_incremental d e \<noteq> None \<Longrightarrow> prune_full d e = None \<and> prune_temp d e = None"
  by (auto simp: prune_temp_def prune_full_def prune_incremental_def split: if_splits option.splits)

lemma set_map_filter: "set (List.map_filter g es) = {x. \<exists>e \<in> set es. g e = Some x}"
  by (induction es) (auto simp: map_filter_Cons opt_list_def split: option.splits)

text \<open>Generic: which entries have their path among the paths of a sublist of a class.\<close>

lemma path_in_class:
  assumes dist: "distinct (map Name es)" and e: "e \<in> set es"
    and lab: "\<And>e x. g e = Some x \<Longrightarrow> path x = filepath_Join d (Name e)"
    and sub: "set D \<subseteq> set (List.map_filter g es)"
  shows "filepath_Join d (Name e) \<in> path ` set D \<longleftrightarrow> (\<exists>x. g e = Some x \<and> x \<in> set D)"
proof
  assume "filepath_Join d (Name e) \<in> path ` set D"
  then obtain x where x: "x \<in> set D" "path x = filepath_Join d (Name e)" by auto
  with sub obtain e2 where e2: "e2 \<in> set es" "g e2 = Some x" by (auto simp: set_map_filter)
  from lab[OF e2(2)] x(2) have "filepath_Join d (Name e2) = filepath_Join d (Name e)" by simp
  from entry_of_path[OF dist e2(1) e this] e2(2) x(1) show "\<exists>x. g e = Some x \<and> x \<in> set D" by auto
next
  assume "\<exists>x. g e = Some x \<and> x \<in> set D"
  then obtain x where "g e = Some x" "x \<in> set D" by blast
  with lab show "filepath_Join d (Name e) \<in> path ` set D" by force
qed

lemma map_filter_filter_class:
  assumes "\<And>e x. e \<in> set es \<Longrightarrow> g e = Some x \<Longrightarrow> (keep e \<longleftrightarrow> Q x)"
  shows "List.map_filter g (filter keep es) = filter Q (List.map_filter g es)"
  using assms
proof (induction es)
  case Nil
  then show ?case by simp
next
  case (Cons e es)
  then have ih: "List.map_filter g (filter keep es) = filter Q (List.map_filter g es)" by simp
  show ?case
  proof (cases "g e")
    case None
    then show ?thesis using ih by (cases "keep e") (simp_all add: map_filter_Cons opt_list_def)
  next
    case (Some x)
    with Cons.prems[of e x] have "keep e \<longleftrightarrow> Q x" by simp
    with Some ih show ?thesis by (cases "keep e") (simp_all add: map_filter_Cons opt_list_def)
  qed
qed

lemma distinct_map_filter_class:
  assumes dist: "distinct (map Name es)"
    and lab: "\<And>e x. g e = Some x \<Longrightarrow> path x = filepath_Join d (Name e)"
  shows "distinct (List.map_filter g es)"
  using dist
proof (induction es)
  case Nil
  then show ?case by simp
next
  case (Cons e es)
  then have ih: "distinct (List.map_filter g es)" by simp
  show ?case
  proof (cases "g e")
    case None
    with ih show ?thesis by simp
  next
    case (Some x)
    have "x \<notin> set (List.map_filter g es)"
    proof
      assume "x \<in> set (List.map_filter g es)"
      then obtain e2 where e2: "e2 \<in> set es" "g e2 = Some x" by (auto simp: set_map_filter)
      from lab[OF e2(2)] lab[OF Some] have "filepath_Join d (Name e2) = filepath_Join d (Name e)" by simp
      then have eq: "Name e2 = Name e" by (rule filepath_Join_inject)
      have "Name e \<notin> Name ` set es" using Cons.prems by simp
      moreover have "Name e2 \<in> Name ` set es" using e2(1) by (rule imageI)
      ultimately show False unfolding eq by (rule notE)
    qed
    with Some ih show ?thesis by simp
  qed
qed

lemma filter_only:
  assumes "distinct xs" "k \<in> set xs" "\<And>x. x \<in> set xs \<Longrightarrow> (Q x \<longleftrightarrow> x = k)"
  shows "filter Q xs = [k]"
  using assms
proof (induction xs)
  case Nil
  then show ?case by simp
next
  case (Cons x xs)
  show ?case
  proof (cases "x = k")
    case True
    with Cons.prems have "\<And>y. y \<in> set xs \<Longrightarrow> \<not> Q y" by auto
    then have "filter Q xs = []" by (simp add: filter_empty_conv)
    with True Cons.prems(3)[of x] show ?thesis by simp
  next
    case False
    with Cons.prems have "k \<in> set xs" "distinct xs" "\<not> Q x" by auto
    with Cons.IH Cons.prems(3) show ?thesis by simp
  qed
qed

lemma Prune_unfold:
  "Prune srt d (Some es) =
     (let st1 = filter (\<lambda>e. filepath_Join d (Name e) \<notin> set (List.map_filter (prune_temp d) es)) es
      in if List.map_filter (prune_full d) es = [] then (None, Some st1)
         else case srt (\<lambda>a b. Slot a > Slot b) (List.map_filter (prune_full d) es) of
                [] \<Rightarrow> (None, Some st1)
              | nf # older \<Rightarrow>
                  (None, Some (filter (\<lambda>e. filepath_Join d (Name e) \<notin>
                       Path ` set (dropped nf False
                          (srt (\<lambda>a b. Slot a > Slot b) (List.map_filter (prune_incremental d) es))))
                     (filter (\<lambda>e. filepath_Join d (Name e) \<notin> Path ` set older) st1))))"
proof -
  have scan: "foldl (prune_scan d) ([], [], []) es =
     (List.map_filter (prune_full d) es, List.map_filter (prune_incremental d) es,
      List.map_filter (prune_temp d) es)"
    using prune_scan_fold[of d "[]" "[]" "[]" es] by simp
  show ?thesis
    unfolding Prune_def os_ReadDir_def
    by (simp add: scan foldl_os_Remove foldl_os_Remove_Path prune_incrementals_filter Let_def
          split: list.splits)
qed

lemma sorted_desc_hd_Max:
  fixes f :: "'b \<Rightarrow> 'a::linorder"
  assumes "sorted_wrt (\<lambda>a b. \<not> f b > f a) (k # rest)"
  shows "f k = Max (f ` set (k # rest))"
proof -
  have "\<forall>y \<in> f ` set (k # rest). y \<le> f k" using assms by (auto simp: not_less)
  moreover have "f k \<in> f ` set (k # rest)" by simp
  ultimately show ?thesis by (intro Max_eqI[symmetric]) auto
qed

lemma sort_Slice_head:
  fixes f :: "'b \<Rightarrow> 'a::linorder"
  assumes spec: "sort_Slice_spec srt (\<lambda>a b. f a > f b)" and eq: "srt (\<lambda>a b. f a > f b) xs = k # rest"
  shows "set xs = insert k (set rest)" "f k = Max (f ` set xs)"
    "distinct xs \<Longrightarrow> k \<notin> set rest"
proof -
  from spec have m: "mset (srt (\<lambda>a b. f a > f b) xs) = mset xs"
    and s: "sorted_wrt (\<lambda>a b. \<not> f b > f a) (srt (\<lambda>a b. f a > f b) xs)"
    by (simp_all add: sort_Slice_spec_def)
  from m have st: "set (k # rest) = set xs" unfolding eq by (rule mset_eq_setD)
  then show "set xs = insert k (set rest)" by simp
  from sorted_desc_hd_Max[OF s[unfolded eq]] show "f k = Max (f ` set xs)" unfolding st .
  assume "distinct xs"
  then have "distinct (k # rest)" using m unfolding eq by (metis mset_eq_imp_distinct_iff)
  then show "k \<notin> set rest" by simp
qed

lemma sort_Slice_nonempty:
  assumes "sort_Slice_spec srt lessf" "xs \<noteq> []"
  shows "srt lessf xs \<noteq> []"
proof
  assume "srt lessf xs = []"
  moreover from assms(1) have "mset (srt lessf xs) = mset xs" by (simp add: sort_Slice_spec_def)
  ultimately show False using assms(2) by simp
qed

lemma temp_path_iff:
  assumes "distinct (map Name es)" "e \<in> set es"
  shows "filepath_Join d (Name e) \<in> set (List.map_filter (prune_temp d) es) \<longleftrightarrow> prune_temp d e \<noteq> None"
proof -
  have "filepath_Join d (Name e) \<in> id ` set (List.map_filter (prune_temp d) es) \<longleftrightarrow>
      (\<exists>x. prune_temp d e = Some x \<and> x \<in> set (List.map_filter (prune_temp d) es))"
    by (rule path_in_class[OF assms]) (auto dest: prune_temp_Path)
  moreover have "prune_temp d e = Some x \<Longrightarrow> x \<in> set (List.map_filter (prune_temp d) es)" for x
    using assms(2) by (auto simp: set_map_filter)
  ultimately show ?thesis by auto
qed

lemma full_path_iff:
  assumes "distinct (map Name es)" "e \<in> set es" "set D \<subseteq> set (List.map_filter (prune_full d) es)"
  shows "filepath_Join d (Name e) \<in> Path ` set D \<longleftrightarrow> (\<exists>x. prune_full d e = Some x \<and> x \<in> set D)"
  by (rule path_in_class[OF assms(1,2) _ assms(3)]) (rule prune_full_Path)

lemma incremental_path_iff:
  assumes "distinct (map Name es)" "e \<in> set es" "set D \<subseteq> set (List.map_filter (prune_incremental d) es)"
  shows "filepath_Join d (Name e) \<in> Path ` set D \<longleftrightarrow> (\<exists>x. prune_incremental d e = Some x \<and> x \<in> set D)"
  by (rule path_in_class[OF assms(1,2) _ assms(3)]) (rule prune_incremental_Path)

text \<open>What is left when the temp files, a set of fulls and a set of incrementals go.\<close>

lemma prune_remaining:
  assumes dist: "distinct (map Name es)"
    and DF: "set DF \<subseteq> set (List.map_filter (prune_full d) es)"
    and DI: "set DI \<subseteq> set (List.map_filter (prune_incremental d) es)"
  defines "es' \<equiv> filter (\<lambda>e. filepath_Join d (Name e) \<notin> Path ` set DI)
             (filter (\<lambda>e. filepath_Join d (Name e) \<notin> Path ` set DF)
               (filter (\<lambda>e. filepath_Join d (Name e) \<notin> set (List.map_filter (prune_temp d) es)) es))"
  shows "set es' \<subseteq> set es"
    and "\<forall>e \<in> set es. \<not> IsDir e \<and> tempFileRe (Name e) \<longrightarrow> e \<notin> set es'"
    and "\<forall>e \<in> set es. IsDir e \<or> (\<not> tempFileRe (Name e) \<and> pruner_fullSnapshotRe (Name e) = None \<and>
            pruner_incrementalSnapshotRe (Name e) = None) \<longrightarrow> e \<in> set es'"
    and "List.map_filter (prune_temp d) es' = []"
    and "List.map_filter (prune_full d) es' = filter (\<lambda>x. x \<notin> set DF) (List.map_filter (prune_full d) es)"
    and "List.map_filter (prune_incremental d) es' =
           filter (\<lambda>x. x \<notin> set DI) (List.map_filter (prune_incremental d) es)"
proof -
  let ?keep = "\<lambda>e. prune_temp d e = None \<and> \<not> (\<exists>x. prune_full d e = Some x \<and> x \<in> set DF) \<and>
                   \<not> (\<exists>x. prune_incremental d e = Some x \<and> x \<in> set DI)"
  have es': "es' = filter ?keep es"
    unfolding es'_def filter_filter
    by (rule filter_cong[OF refl])
       (simp add: temp_path_iff[OF dist] full_path_iff[OF dist _ DF] incremental_path_iff[OF dist _ DI])
  show "set es' \<subseteq> set es" unfolding es' by simp
  show "\<forall>e \<in> set es. \<not> IsDir e \<and> tempFileRe (Name e) \<longrightarrow> e \<notin> set es'"
    unfolding es' by (simp add: prune_temp_def)
  show "\<forall>e \<in> set es. IsDir e \<or> (\<not> tempFileRe (Name e) \<and> pruner_fullSnapshotRe (Name e) = None \<and>
            pruner_incrementalSnapshotRe (Name e) = None) \<longrightarrow> e \<in> set es'"
    unfolding es' by (auto simp: prune_temp_def prune_full_def prune_incremental_def)
  have "\<And>e. e \<in> set es' \<Longrightarrow> prune_temp d e = None" unfolding es' by simp
  then show "List.map_filter (prune_temp d) es' = []"
    by (induction es') simp_all
  show "List.map_filter (prune_full d) es' = filter (\<lambda>x. x \<notin> set DF) (List.map_filter (prune_full d) es)"
    unfolding es'
  proof (rule map_filter_filter_class)
    fix e x assume "e \<in> set es" "prune_full d e = Some x"
    with prune_classes(2)[of d e] show "?keep e \<longleftrightarrow> x \<notin> set DF" by auto
  qed
  show "List.map_filter (prune_incremental d) es' =
           filter (\<lambda>x. x \<notin> set DI) (List.map_filter (prune_incremental d) es)"
    unfolding es'
  proof (rule map_filter_filter_class)
    fix e x assume "e \<in> set es" "prune_incremental d e = Some x"
    with prune_classes(3)[of d e] show "?keep e \<longleftrightarrow> x \<notin> set DI" by auto
  qed
qed

lemma dropped_matching:
  fixes sI :: "SnapshotFile list"
  assumes dI: "distinct sI" and srt: "sorted_wrt (\<lambda>a b. \<not> Slot b > Slot a) sI"
  shows "filter (\<lambda>i. BaseSlot i = Slot nf) sI = [] \<Longrightarrow> set (dropped nf False sI) = set sI"
    and "filter (\<lambda>i. BaseSlot i = Slot nf) sI \<noteq> [] \<Longrightarrow>
           \<exists>km. km \<in> set sI \<and> BaseSlot km = Slot nf \<and>
              Slot km = Max (Slot ` set (filter (\<lambda>i. BaseSlot i = Slot nf) sI)) \<and>
              set (dropped nf False sI) = set sI - {km}"
proof -
  let ?M = "filter (\<lambda>i. BaseSlot i = Slot nf) sI"
  show "?M = [] \<Longrightarrow> set (dropped nf False sI) = set sI"
    by (simp add: dropped_False)
  assume "?M \<noteq> []"
  then obtain km rest where M: "?M = km # rest" by (cases ?M) auto
  then have "km \<in> set ?M" by simp
  then have km: "km \<in> set sI" "BaseSlot km = Slot nf" by simp_all
  have "sorted_wrt (\<lambda>a b. \<not> Slot b > Slot a) ?M" using srt by (rule sorted_wrt_filter)
  from sorted_desc_hd_Max[OF this[unfolded M]] have mx: "Slot km = Max (Slot ` set ?M)"
    unfolding M .
  have "set (dropped nf False sI) = set sI - {km}"
    using dI by (simp add: dropped_False M)
  with km mx show "\<exists>km. km \<in> set sI \<and> BaseSlot km = Slot nf \<and>
              Slot km = Max (Slot ` set ?M) \<and> set (dropped nf False sI) = set sI - {km}" by blast
qed

lemma Prune_result:
  assumes spec: "sort_Slice_spec srt (\<lambda>a b. Slot a > Slot b)"
    and dist: "distinct (map Name es)"
  shows "\<exists>es'. Prune srt d (Some es) = (None, Some es') \<and>
     set es' \<subseteq> set es \<and> distinct (map Name es') \<and>
     List.map_filter (prune_temp d) es' = [] \<and>
     (\<forall>e \<in> set es. \<not> IsDir e \<and> tempFileRe (Name e) \<longrightarrow> e \<notin> set es') \<and>
     (\<forall>e \<in> set es. IsDir e \<or> (\<not> tempFileRe (Name e) \<and> pruner_fullSnapshotRe (Name e) = None \<and>
            pruner_incrementalSnapshotRe (Name e) = None) \<longrightarrow> e \<in> set es') \<and>
     (prune_fulls d es = [] \<longrightarrow> prune_fulls d es' = [] \<and> prune_incs d es' = prune_incs d es) \<and>
     (prune_fulls d es \<noteq> [] \<longrightarrow>
        (\<exists>k. prune_fulls d es' = [k] \<and> k \<in> set (prune_fulls d es) \<and>
            Slot k = Max (Slot ` set (prune_fulls d es)) \<and>
            (filter (\<lambda>i. BaseSlot i = Slot k) (prune_incs d es) = [] \<longrightarrow> prune_incs d es' = []) \<and>
            (filter (\<lambda>i. BaseSlot i = Slot k) (prune_incs d es) \<noteq> [] \<longrightarrow>
               (\<exists>ki. prune_incs d es' = [ki] \<and> ki \<in> set (prune_incs d es) \<and>
                   BaseSlot ki = Slot k \<and>
                   Slot ki = Max (Slot ` set (filter (\<lambda>i. BaseSlot i = Slot k) (prune_incs d es)))))))"
proof (cases "prune_fulls d es = []")
  case True
  let ?es' = "filter (\<lambda>e. filepath_Join d (Name e) \<notin> Path ` set ([] :: SnapshotFile list))
             (filter (\<lambda>e. filepath_Join d (Name e) \<notin> Path ` set ([] :: SnapshotFile list))
               (filter (\<lambda>e. filepath_Join d (Name e) \<notin> set (List.map_filter (prune_temp d) es)) es))"
  have run: "Prune srt d (Some es) = (None, Some ?es')"
    using True by (simp add: Prune_unfold prune_fulls_def)
  have e1: "set ([] :: SnapshotFile list) \<subseteq> set (List.map_filter (prune_full d) es)"
    and e2: "set ([] :: SnapshotFile list) \<subseteq> set (List.map_filter (prune_incremental d) es)" by simp_all
  note rem = prune_remaining[OF dist e1 e2]
  have "prune_fulls d ?es' = []" unfolding prune_fulls_def rem(5) using True
    by (simp add: prune_fulls_def)
  moreover have "prune_incs d ?es' = prune_incs d es" unfolding prune_incs_def rem(6) by simp
  moreover have "distinct (map Name ?es')" using dist by (simp add: distinct_map_filter)
  ultimately show ?thesis using run rem(1,2,3,4) True by blast
next
  case False
  let ?F = "List.map_filter (prune_full d) es"
  let ?I = "List.map_filter (prune_incremental d) es"
  let ?gt = "\<lambda>a b :: SnapshotFile. Slot a > Slot b"
  have Fne: "?F \<noteq> []" using False by (simp add: prune_fulls_def)
  from sort_Slice_nonempty[OF spec Fne] obtain nf older where so: "srt ?gt ?F = nf # older"
    by (cases "srt ?gt ?F") auto
  have dF: "distinct ?F" by (rule distinct_map_filter_class[OF dist]) (rule prune_full_Path)
  have dI: "distinct ?I" by (rule distinct_map_filter_class[OF dist]) (rule prune_incremental_Path)
  note hd = sort_Slice_head[OF spec so]
  let ?sI = "srt ?gt ?I"
  from spec have mI: "mset ?sI = mset ?I" and sI: "sorted_wrt (\<lambda>a b. \<not> Slot b > Slot a) ?sI"
    by (simp_all add: sort_Slice_spec_def)
  have setI: "set ?sI = set ?I" using mI by (rule mset_eq_setD)
  have dsI: "distinct ?sI" using dI mI by (metis mset_eq_imp_distinct_iff)
  let ?dr = "dropped nf False ?sI"
  let ?es' = "filter (\<lambda>e. filepath_Join d (Name e) \<notin> Path ` set ?dr)
             (filter (\<lambda>e. filepath_Join d (Name e) \<notin> Path ` set older)
               (filter (\<lambda>e. filepath_Join d (Name e) \<notin> set (List.map_filter (prune_temp d) es)) es))"
  have run: "Prune srt d (Some es) = (None, Some ?es')"
    using Fne so by (simp add: Prune_unfold)
  have subF: "set older \<subseteq> set ?F" using hd(1) by auto
  have setM: "set (filter (\<lambda>i. BaseSlot i = Slot nf) ?I) = set (filter (\<lambda>i. BaseSlot i = Slot nf) ?sI)"
    using setI by simp
  have Mnil: "filter (\<lambda>i. BaseSlot i = Slot nf) ?I = [] \<longleftrightarrow> filter (\<lambda>i. BaseSlot i = Slot nf) ?sI = []"
    using setM by (metis set_empty)
  have subI: "set ?dr \<subseteq> set ?I"
  proof (cases "filter (\<lambda>i. BaseSlot i = Slot nf) ?sI = []")
    case True
    from dropped_matching(1)[OF dsI sI True] setI show ?thesis by simp
  next
    case False
    from dropped_matching(2)[OF dsI sI False] setI show ?thesis by auto
  qed
  note rem = prune_remaining[OF dist subF subI]
  have fulls': "prune_fulls d ?es' = [nf]"
    unfolding prune_fulls_def rem(5)
  proof (rule filter_only[OF dF])
    show "nf \<in> set ?F" using hd(1) by simp
    fix x assume "x \<in> set ?F"
    then show "x \<notin> set older \<longleftrightarrow> x = nf" using hd(1) hd(3)[OF dF] by auto
  qed
  have nfF: "nf \<in> set (prune_fulls d es)" using hd(1) by (simp add: prune_fulls_def)
  have mx: "Slot nf = Max (Slot ` set (prune_fulls d es))" using hd(2) by (simp add: prune_fulls_def)
  have incs_none: "filter (\<lambda>i. BaseSlot i = Slot nf) (prune_incs d es) = [] \<longrightarrow> prune_incs d ?es' = []"
  proof
    assume "filter (\<lambda>i. BaseSlot i = Slot nf) (prune_incs d es) = []"
    then have "filter (\<lambda>i. BaseSlot i = Slot nf) ?sI = []" using Mnil by (simp add: prune_incs_def)
    from dropped_matching(1)[OF dsI sI this] setI have "set ?dr = set ?I" by simp
    then show "prune_incs d ?es' = []" unfolding prune_incs_def rem(6) by (simp add: filter_empty_conv)
  qed
  have incs_some: "filter (\<lambda>i. BaseSlot i = Slot nf) (prune_incs d es) \<noteq> [] \<longrightarrow>
       (\<exists>ki. prune_incs d ?es' = [ki] \<and> ki \<in> set (prune_incs d es) \<and> BaseSlot ki = Slot nf \<and>
           Slot ki = Max (Slot ` set (filter (\<lambda>i. BaseSlot i = Slot nf) (prune_incs d es))))"
  proof
    assume "filter (\<lambda>i. BaseSlot i = Slot nf) (prune_incs d es) \<noteq> []"
    then have "filter (\<lambda>i. BaseSlot i = Slot nf) ?sI \<noteq> []" using Mnil by (simp add: prune_incs_def)
    from dropped_matching(2)[OF dsI sI this] obtain km where
      km: "km \<in> set ?sI" "BaseSlot km = Slot nf"
          "Slot km = Max (Slot ` set (filter (\<lambda>i. BaseSlot i = Slot nf) ?sI))"
          "set ?dr = set ?sI - {km}" by blast
    have "prune_incs d ?es' = [km]"
      unfolding prune_incs_def rem(6)
    proof (rule filter_only[OF dI])
      show "km \<in> set ?I" using km(1) setI by simp
      fix x assume "x \<in> set ?I"
      then show "x \<notin> set ?dr \<longleftrightarrow> x = km" unfolding km(4) setI by auto
    qed
    moreover have "km \<in> set (prune_incs d es)" using km(1) setI by (simp add: prune_incs_def)
    moreover have "Slot km = Max (Slot ` set (filter (\<lambda>i. BaseSlot i = Slot nf) (prune_incs d es)))"
      using km(3) unfolding prune_incs_def setM .
    ultimately show "\<exists>ki. prune_incs d ?es' = [ki] \<and> ki \<in> set (prune_incs d es) \<and> BaseSlot ki = Slot nf \<and>
           Slot ki = Max (Slot ` set (filter (\<lambda>i. BaseSlot i = Slot nf) (prune_incs d es)))"
      using km(2) by blast
  qed
  have "\<exists>k. prune_fulls d ?es' = [k] \<and> k \<in> set (prune_fulls d es) \<and>
            Slot k = Max (Slot ` set (prune_fulls d es)) \<and>
            (filter (\<lambda>i. BaseSlot i = Slot k) (prune_incs d es) = [] \<longrightarrow> prune_incs d ?es' = []) \<and>
            (filter (\<lambda>i. BaseSlot i = Slot k) (prune_incs d es) \<noteq> [] \<longrightarrow>
               (\<exists>ki. prune_incs d ?es' = [ki] \<and> ki \<in> set (prune_incs d es) \<and>
                   BaseSlot ki = Slot k \<and>
                   Slot ki = Max (Slot ` set (filter (\<lambda>i. BaseSlot i = Slot k) (prune_incs d es)))))"
    using fulls' nfF mx incs_none incs_some by blast
  moreover have "distinct (map Name ?es')" using dist by (simp add: distinct_map_filter)
  ultimately show ?thesis using run rem(1,2,3,4) False by blast
qed

lemma sort_Slice_singleton:
  assumes "sort_Slice_spec srt lessf"
  shows "srt lessf [x] = [x]" "srt lessf [] = []"
proof -
  from assms have "mset (srt lessf [x]) = mset [x]" "mset (srt lessf []) = mset []"
    by (simp_all add: sort_Slice_spec_def)
  then show "srt lessf [x] = [x]" "srt lessf [] = []" by simp_all
qed

lemma filter_no_paths:
  "filter (\<lambda>e. filepath_Join d (Name e) \<notin> Path ` set ([] :: SnapshotFile list)) es = es"
  "filter (\<lambda>e. filepath_Join d (Name e) \<notin> set []) es = es"
  by simp_all

lemma Prune_settled:
  assumes spec: "sort_Slice_spec srt (\<lambda>a b. Slot a > Slot b)"
    and T: "List.map_filter (prune_temp d) es = []"
    and F: "prune_fulls d es = [] \<and> True \<or>
            (\<exists>k. prune_fulls d es = [k] \<and>
               (prune_incs d es = [] \<or> (\<exists>ki. prune_incs d es = [ki] \<and> BaseSlot ki = Slot k)))"
  shows "Prune srt d (Some es) = (None, Some es)"
proof (cases "prune_fulls d es = []")
  case True
  then show ?thesis by (simp add: Prune_unfold T prune_fulls_def)
next
  case False
  with F obtain k where k: "prune_fulls d es = [k]"
    and i: "prune_incs d es = [] \<or> (\<exists>ki. prune_incs d es = [ki] \<and> BaseSlot ki = Slot k)" by blast
  note ss = sort_Slice_singleton[OF spec]
  from i show ?thesis
  proof
    assume "prune_incs d es = []"
    with k show ?thesis
      by (simp add: Prune_unfold T prune_fulls_def[symmetric] prune_incs_def[symmetric] ss)
  next
    assume "\<exists>ki. prune_incs d es = [ki] \<and> BaseSlot ki = Slot k"
    then obtain ki where "prune_incs d es = [ki]" "BaseSlot ki = Slot k" by blast
    with k show ?thesis
      by (simp add: Prune_unfold T prune_fulls_def[symmetric] prune_incs_def[symmetric] ss)
  qed
qed

text \<open>
  C3. For a readable snapshot directory, \<open>Prune\<close> returns no error and leaves a listing
  \<open>es'\<close> drawn from the one it found. No regular file whose name ends in \<^verbatim>\<open>.tmp\<close> or
  \<^verbatim>\<open>.partial\<close> is left. Directories, and files that are neither temp files nor full nor
  incremental snapshots, are all still there. When the listing has no full snapshot, none
  appears and the incrementals are those found. When it has one, exactly one full is
  left, of the highest slot among the fulls found; the incrementals left are none when
  no incremental found has that slot as its base slot, and otherwise exactly one, based
  on the kept full, of the highest slot among the incrementals found with that base.
  \<open>sort.Slice\<close> is any function meeting its contract, and the listing holds each name
  once.
\<close>

theorem Prune_keeps_newest:
  assumes spec: "sort_Slice_spec srt (\<lambda>a b. Slot a > Slot b)"
    and dist: "distinct (map Name es)"
  shows "\<exists>es'. Prune srt d (Some es) = (None, Some es') \<and>
     set es' \<subseteq> set es \<and>
     (\<forall>e \<in> set es. \<not> IsDir e \<and> tempFileRe (Name e) \<longrightarrow> e \<notin> set es') \<and>
     (\<forall>e \<in> set es. IsDir e \<or> (\<not> tempFileRe (Name e) \<and> pruner_fullSnapshotRe (Name e) = None \<and>
            pruner_incrementalSnapshotRe (Name e) = None) \<longrightarrow> e \<in> set es') \<and>
     (prune_fulls d es = [] \<longrightarrow> prune_fulls d es' = [] \<and> prune_incs d es' = prune_incs d es) \<and>
     (prune_fulls d es \<noteq> [] \<longrightarrow>
        (\<exists>k. prune_fulls d es' = [k] \<and> k \<in> set (prune_fulls d es) \<and>
            Slot k = Max (Slot ` set (prune_fulls d es)) \<and>
            (filter (\<lambda>i. BaseSlot i = Slot k) (prune_incs d es) = [] \<longrightarrow> prune_incs d es' = []) \<and>
            (filter (\<lambda>i. BaseSlot i = Slot k) (prune_incs d es) \<noteq> [] \<longrightarrow>
               (\<exists>ki. prune_incs d es' = [ki] \<and> ki \<in> set (prune_incs d es) \<and>
                   BaseSlot ki = Slot k \<and>
                   Slot ki = Max (Slot ` set (filter (\<lambda>i. BaseSlot i = Slot k) (prune_incs d es)))))))"
  using Prune_result[OF assms, of d] by blast

theorem Prune_keeps_newest_witness:
  "sort_Slice_spec insertionSort (\<lambda>(a :: SnapshotFile) b. Slot a > Slot b) \<and>
   distinct (map Name
     [\<lparr>Name = ''snapshot-100-a.tar.zst'', IsDir = False\<rparr>,
      \<lparr>Name = ''snapshot-300-c.tar.zst'', IsDir = False\<rparr>,
      \<lparr>Name = ''snapshot-200-b.tar.zst'', IsDir = False\<rparr>,
      \<lparr>Name = ''incremental-snapshot-100-150-d.tar.zst'', IsDir = False\<rparr>,
      \<lparr>Name = ''incremental-snapshot-300-340-f.tar.zst'', IsDir = False\<rparr>,
      \<lparr>Name = ''incremental-snapshot-300-350-e.tar.zst'', IsDir = False\<rparr>,
      \<lparr>Name = ''snapshot-400-x.tar.zst.tmp'', IsDir = False\<rparr>,
      \<lparr>Name = ''dir.tmp'', IsDir = True\<rparr>,
      \<lparr>Name = ''notes.txt'', IsDir = False\<rparr>]) \<and>
   Prune insertionSort ''/snapshots'' (Some
     [\<lparr>Name = ''snapshot-100-a.tar.zst'', IsDir = False\<rparr>,
      \<lparr>Name = ''snapshot-300-c.tar.zst'', IsDir = False\<rparr>,
      \<lparr>Name = ''snapshot-200-b.tar.zst'', IsDir = False\<rparr>,
      \<lparr>Name = ''incremental-snapshot-100-150-d.tar.zst'', IsDir = False\<rparr>,
      \<lparr>Name = ''incremental-snapshot-300-340-f.tar.zst'', IsDir = False\<rparr>,
      \<lparr>Name = ''incremental-snapshot-300-350-e.tar.zst'', IsDir = False\<rparr>,
      \<lparr>Name = ''snapshot-400-x.tar.zst.tmp'', IsDir = False\<rparr>,
      \<lparr>Name = ''dir.tmp'', IsDir = True\<rparr>,
      \<lparr>Name = ''notes.txt'', IsDir = False\<rparr>]) =
   (None, Some
     [\<lparr>Name = ''snapshot-300-c.tar.zst'', IsDir = False\<rparr>,
      \<lparr>Name = ''incremental-snapshot-300-350-e.tar.zst'', IsDir = False\<rparr>,
      \<lparr>Name = ''dir.tmp'', IsDir = True\<rparr>,
      \<lparr>Name = ''notes.txt'', IsDir = False\<rparr>]) \<and>
   length (prune_fulls ''/snapshots''
     [\<lparr>Name = ''snapshot-300-c.tar.zst'', IsDir = False\<rparr>,
      \<lparr>Name = ''incremental-snapshot-300-350-e.tar.zst'', IsDir = False\<rparr>,
      \<lparr>Name = ''dir.tmp'', IsDir = True\<rparr>,
      \<lparr>Name = ''notes.txt'', IsDir = False\<rparr>]) = 1"
  (is "?spec \<and> distinct (map Name ?es) \<and> ?run = (None, Some ?res) \<and> _")
proof -
  have spec: ?spec by (rule insertionSort_spec_desc)
  have dist: "distinct (map Name ?es)" by code_simp
  have run: "?run = (None, Some ?res)" by code_simp
  have ne: "prune_fulls ''/snapshots'' ?es \<noteq> []" by code_simp
  from Prune_keeps_newest[OF spec dist, of "''/snapshots''"] obtain es' where
    r: "?run = (None, Some es')" and
    f: "prune_fulls ''/snapshots'' ?es \<noteq> [] \<longrightarrow> (\<exists>k. prune_fulls ''/snapshots'' es' = [k])"
    by blast
  from r run have "es' = ?res" by simp
  with f ne have "length (prune_fulls ''/snapshots'' ?res) = 1" by auto
  with spec dist run show ?thesis by blast
qed
section \<open>The rejections of a probe\<close>

lemma word_gt_of_int:
  fixes a :: uint64
  assumes "0 < M" "M < 2 ^ 63"
  shows "a > word_of_int M \<longleftrightarrow> uint a > M"
proof -
  have "M < 2 ^ 64" using assms(2) by simp
  then have "uint (word_of_int M :: uint64) = M"
    using assms(1) by (simp add: uint_word_of_int take_bit_int_eq_self)
  then show ?thesis by (simp add: word_less_def)
qed

lemma response_filename_Inr:
  "response_filename code loc endpoint = Inr fn \<longleftrightarrow>
     ((code = 301 \<or> code = 302 \<or> code = 303 \<or> code = 307) \<and> loc \<noteq> [] \<and>
        fn = last (strings_Split_slash loc)) \<or>
     (code = 200 \<and> fn = last (strings_Split_slash endpoint))"
  by (auto simp: response_filename_def)

lemma response_filename_Inl:
  "((code = 301 \<or> code = 302 \<or> code = 303 \<or> code = 307) \<and> loc = []) \<or>
     (code \<noteq> 301 \<and> code \<noteq> 302 \<and> code \<noteq> 303 \<and> code \<noteq> 307 \<and> code \<noteq> 200) \<Longrightarrow>
   \<exists>pe. response_filename code loc endpoint = Inl (ProbeError pe) \<and>
        reason pe = rejectStatusCode \<and> statusCode pe = code"
  by (auto simp: response_filename_def)


text \<open>
  C4, as the code has it. For every single-node probe the structured rejection carries
  the tag of its cause: a transport error is \<open>rejectHTTPError\<close>; a round trip above
  \<open>MaxLatency\<close> is \<open>rejectLatency\<close>, whatever the status code; a redirect (301, 302, 303,
  307) without \<^verbatim>\<open>Location\<close> and any status outside 301, 302, 303, 307 and 200 is
  \<open>rejectStatusCode\<close> with the actual code; a file name that does not match the expected
  kind is \<open>rejectParseFail\<close>; when the maximum age is positive and \<open>tip - slot\<close> exceeds
  it, the rejection is \<open>rejectTooOld\<close> and carries that slot age. A snapshot slot strictly
  above the cluster tip is rejected as \<open>rejectTooOld\<close> too, with slot age 0: the code has
  no separate kind for it. On success the node's \<open>SnapshotURL\<close> is the origin, a slash
  and the file name. The maximum age is a Go \<^verbatim>\<open>int\<close>.
\<close>

theorem probeNode_rejection_tags:
  assumes "MaxSnapshotAgeSlots opts < 2 ^ 63"
  shows
   "(\<forall>e. \<exists>pe. probeNode (DoError e) addr endpoint tip kind opts = Inl (ProbeError pe) \<and>
          reason pe = rejectHTTPError) \<and>
    (\<forall>code loc lat. lat > MaxLatency opts \<longrightarrow>
       (\<exists>pe. probeNode (Response code loc lat) addr endpoint tip kind opts = Inl (ProbeError pe) \<and>
          reason pe = rejectLatency)) \<and>
    (\<forall>code loc lat. lat \<le> MaxLatency opts \<longrightarrow>
       ((code = 301 \<or> code = 302 \<or> code = 303 \<or> code = 307) \<and> loc = []) \<or>
       (code \<noteq> 301 \<and> code \<noteq> 302 \<and> code \<noteq> 303 \<and> code \<noteq> 307 \<and> code \<noteq> 200) \<longrightarrow>
       (\<exists>pe. probeNode (Response code loc lat) addr endpoint tip kind opts = Inl (ProbeError pe) \<and>
          reason pe = rejectStatusCode \<and> statusCode pe = code)) \<and>
    (\<forall>code loc lat fn. lat \<le> MaxLatency opts \<longrightarrow>
       ((code = 301 \<or> code = 302 \<or> code = 303 \<or> code = 307) \<and> loc \<noteq> [] \<and>
          fn = last (strings_Split_slash loc)) \<or>
       (code = 200 \<and> fn = last (strings_Split_slash endpoint)) \<longrightarrow>
       (case parseSnapshotFilename fn kind of
          Inl e \<Rightarrow>
            \<exists>pe. probeNode (Response code loc lat) addr endpoint tip kind opts = Inl (ProbeError pe) \<and>
               reason pe = rejectParseFail
        | Inr node \<Rightarrow>
            if NodeSlot node > tip then
              \<exists>pe. probeNode (Response code loc lat) addr endpoint tip kind opts = Inl (ProbeError pe) \<and>
                 reason pe = rejectTooOld \<and> slotAge pe = 0
            else if MaxSnapshotAgeSlots opts > 0 \<and>
                    uint (tip - NodeSlot node) > MaxSnapshotAgeSlots opts then
              \<exists>pe. probeNode (Response code loc lat) addr endpoint tip kind opts = Inl (ProbeError pe) \<and>
                 reason pe = rejectTooOld \<and> slotAge pe = tip - NodeSlot node
            else
              \<exists>n. probeNode (Response code loc lat) addr endpoint tip kind opts = Inr n \<and>
                 SnapshotURL n = addr @ ''/'' @ fn \<and> Filename n = fn \<and> RPCURL n = addr \<and>
                 NodeSlot n = NodeSlot node \<and> NodeBaseSlot n = NodeBaseSlot node \<and>
                 SnapshotType n = SnapshotType node \<and>
                 SlotAge n = tip - NodeSlot node \<and> Latency n = lat))"
proof (intro conjI allI impI)
  fix e
  show "\<exists>pe. probeNode (DoError e) addr endpoint tip kind opts = Inl (ProbeError pe) \<and>
          reason pe = rejectHTTPError"
    by (simp add: probeNode_def)
next
  fix code :: int and loc :: string and lat :: int assume "lat > MaxLatency opts"
  then show "\<exists>pe. probeNode (Response code loc lat) addr endpoint tip kind opts = Inl (ProbeError pe) \<and>
          reason pe = rejectLatency"
    by (simp add: probeNode_def)
next
  fix code :: int and loc :: string and lat :: int
  assume lat: "lat \<le> MaxLatency opts"
    and st: "((code = 301 \<or> code = 302 \<or> code = 303 \<or> code = 307) \<and> loc = []) \<or>
       (code \<noteq> 301 \<and> code \<noteq> 302 \<and> code \<noteq> 303 \<and> code \<noteq> 307 \<and> code \<noteq> 200)"
  from response_filename_Inl[OF st, of endpoint] obtain pe where
    "response_filename code loc endpoint = Inl (ProbeError pe)"
    "reason pe = rejectStatusCode" "statusCode pe = code" by blast
  with lat show "\<exists>pe. probeNode (Response code loc lat) addr endpoint tip kind opts = Inl (ProbeError pe) \<and>
          reason pe = rejectStatusCode \<and> statusCode pe = code"
    by (simp add: probeNode_def)
next
  fix code :: int and loc :: string and lat :: int and fn :: string
  assume lat: "lat \<le> MaxLatency opts"
    and st: "((code = 301 \<or> code = 302 \<or> code = 303 \<or> code = 307) \<and> loc \<noteq> [] \<and>
          fn = last (strings_Split_slash loc)) \<or>
       (code = 200 \<and> fn = last (strings_Split_slash endpoint))"
  from st have rf: "response_filename code loc endpoint = Inr fn"
    by (simp only: response_filename_Inr)
  have nl: "\<not> lat > MaxLatency opts" using lat by simp
  let ?p = "probeNode (Response code loc lat) addr endpoint tip kind opts"
  show "case parseSnapshotFilename fn kind of
          Inl e \<Rightarrow>
            \<exists>pe. ?p = Inl (ProbeError pe) \<and> reason pe = rejectParseFail
        | Inr node \<Rightarrow>
            if NodeSlot node > tip then
              \<exists>pe. ?p = Inl (ProbeError pe) \<and> reason pe = rejectTooOld \<and> slotAge pe = 0
            else if MaxSnapshotAgeSlots opts > 0 \<and>
                    uint (tip - NodeSlot node) > MaxSnapshotAgeSlots opts then
              \<exists>pe. ?p = Inl (ProbeError pe) \<and>
                 reason pe = rejectTooOld \<and> slotAge pe = tip - NodeSlot node
            else
              \<exists>n. ?p = Inr n \<and>
                 SnapshotURL n = addr @ ''/'' @ fn \<and> Filename n = fn \<and> RPCURL n = addr \<and>
                 NodeSlot n = NodeSlot node \<and> NodeBaseSlot n = NodeBaseSlot node \<and>
                 SnapshotType n = SnapshotType node \<and>
                 SlotAge n = tip - NodeSlot node \<and> Latency n = lat"
  proof (cases "parseSnapshotFilename fn kind")
    case (Inl e)
    with rf nl show ?thesis by (simp add: probeNode_def)
  next
    case (Inr node)
    show ?thesis
    proof (cases "NodeSlot node > tip")
      case True
      with Inr rf nl show ?thesis by (simp add: probeNode_def)
    next
      case False
      show ?thesis
      proof (cases "MaxSnapshotAgeSlots opts > 0")
        case pos: True
        note cmp = word_gt_of_int[OF pos assms, of "tip - NodeSlot node"]
        show ?thesis
        proof (cases "uint (tip - NodeSlot node) > MaxSnapshotAgeSlots opts")
          case True
          with Inr rf nl False pos cmp show ?thesis by (simp add: probeNode_def Let_def)
        next
          case old: False
          with Inr rf nl False pos cmp show ?thesis by (simp add: probeNode_def Let_def)
        qed
      next
        case npos: False
        with Inr rf nl False show ?thesis by (simp add: probeNode_def Let_def)
      qed
    qed
  qed
qed

theorem probeNode_rejection_tags_witness:
  "MaxSnapshotAgeSlots \<lparr>MaxLatency = 100000000, MaxSnapshotAgeSlots = 1300, ProbeConcurrency = 500,
       SortOrder = ''latency'', MinSuitable = 3\<rparr> < 2 ^ 63 \<and>
   (\<exists>pe. probeNode (Response 302 ''/snapshot-200-Hash.tar.zst'' 5000000) ''http://10.0.0.1:8899''
            ''/snapshot.tar.bz2'' 3000 SnapshotTypeFull
            \<lparr>MaxLatency = 100000000, MaxSnapshotAgeSlots = 1300, ProbeConcurrency = 500,
               SortOrder = ''latency'', MinSuitable = 3\<rparr> = Inl (ProbeError pe) \<and>
         reason pe = rejectTooOld \<and> slotAge pe = 2800)"
proof -
  let ?o = "\<lparr>MaxLatency = 100000000, MaxSnapshotAgeSlots = 1300, ProbeConcurrency = 500,
       SortOrder = ''latency'', MinSuitable = 3\<rparr>"
  have h: "MaxSnapshotAgeSlots ?o < 2 ^ 63" by simp
  have fn: "last (strings_Split_slash ''/snapshot-200-Hash.tar.zst'') = ''snapshot-200-Hash.tar.zst''"
    by code_simp
  have parse: "parseSnapshotFilename ''snapshot-200-Hash.tar.zst'' SnapshotTypeFull =
      Inr \<lparr>RPCURL = [], SnapshotURL = [], SnapshotType = SnapshotTypeFull,
           NodeSlot = 200, NodeBaseSlot = 0, Filename = [], Latency = 0, SlotAge = 0\<rparr>"
    by code_simp
  from probeNode_rejection_tags[OF h, of "''http://10.0.0.1:8899''" "''/snapshot.tar.bz2''" 3000 SnapshotTypeFull]
  have "\<forall>code loc lat fn. lat \<le> MaxLatency ?o \<longrightarrow>
       ((code = 301 \<or> code = 302 \<or> code = 303 \<or> code = 307) \<and> loc \<noteq> [] \<and>
          fn = last (strings_Split_slash loc)) \<or>
       (code = 200 \<and> fn = last (strings_Split_slash ''/snapshot.tar.bz2'')) \<longrightarrow>
       (case parseSnapshotFilename fn SnapshotTypeFull of
          Inl e \<Rightarrow>
            \<exists>pe. probeNode (Response code loc lat) ''http://10.0.0.1:8899'' ''/snapshot.tar.bz2'' 3000 SnapshotTypeFull ?o = Inl (ProbeError pe) \<and>
               reason pe = rejectParseFail
        | Inr node \<Rightarrow>
            if NodeSlot node > 3000 then
              \<exists>pe. probeNode (Response code loc lat) ''http://10.0.0.1:8899'' ''/snapshot.tar.bz2'' 3000 SnapshotTypeFull ?o = Inl (ProbeError pe) \<and>
                 reason pe = rejectTooOld \<and> slotAge pe = 0
            else if MaxSnapshotAgeSlots ?o > 0 \<and>
                    uint (3000 - NodeSlot node) > MaxSnapshotAgeSlots ?o then
              \<exists>pe. probeNode (Response code loc lat) ''http://10.0.0.1:8899'' ''/snapshot.tar.bz2'' 3000 SnapshotTypeFull ?o = Inl (ProbeError pe) \<and>
                 reason pe = rejectTooOld \<and> slotAge pe = 3000 - NodeSlot node
            else
              \<exists>n. probeNode (Response code loc lat) ''http://10.0.0.1:8899'' ''/snapshot.tar.bz2'' 3000 SnapshotTypeFull ?o = Inr n \<and>
                 SnapshotURL n = ''http://10.0.0.1:8899'' @ ''/'' @ fn \<and> Filename n = fn \<and> RPCURL n = ''http://10.0.0.1:8899'' \<and>
                 NodeSlot n = NodeSlot node \<and> NodeBaseSlot n = NodeBaseSlot node \<and>
                 SnapshotType n = SnapshotType node \<and>
                 SlotAge n = 3000 - NodeSlot node \<and> Latency n = lat)"
    by blast
  from this[rule_format, of 5000000 302 "''/snapshot-200-Hash.tar.zst''" "''snapshot-200-Hash.tar.zst''"]
  have "\<exists>pe. probeNode (Response 302 ''/snapshot-200-Hash.tar.zst'' 5000000) ''http://10.0.0.1:8899''
            ''/snapshot.tar.bz2'' 3000 SnapshotTypeFull ?o = Inl (ProbeError pe) \<and>
         reason pe = rejectTooOld \<and> slotAge pe = 2800"
    unfolding fn parse by simp
  with h show ?thesis by (rule conjI)
qed

text \<open>
  The claim as stated asks for a kind of its own, distinct from too-old, when the remote
  slot is ahead of the tip. A node that redirects to a snapshot at slot 200 while the tip
  is 100 is rejected with \<open>rejectTooOld\<close>.
\<close>

theorem probeNode_slot_ahead_counterexample:
  "probeNode (Response 302 ''/snapshot-200-Hash.tar.zst'' 5000000) ''http://10.0.0.1:8899''
      ''/snapshot.tar.bz2'' 100 SnapshotTypeFull
      \<lparr>MaxLatency = 100000000, MaxSnapshotAgeSlots = 1300, ProbeConcurrency = 500,
         SortOrder = ''latency'', MinSuitable = 3\<rparr>
   = Inl (ProbeError \<lparr>reason = rejectTooOld,
            wrapped_err = Err ''snapshot slot is ahead of current slot'',
            statusCode = 0, slotAge = 0\<rparr>)"
  by code_simp

section \<open>The chunks tile the content\<close>

declare chunk_loop.simps [simp del]

lemma chunk_loop_length:
  "i \<le> n \<Longrightarrow> length (chunk_loop i n cs L) = nat (n - i)"
proof (induction i n cs L rule: chunk_loop.induct)
  case (1 i n cs L)
  show ?case
  proof (cases "i < n")
    case True
    then have "length (chunk_loop (i + 1) n cs L) = nat (n - (i + 1))"
      using 1 by simp
    with True show ?thesis by (subst chunk_loop.simps) (simp add: Let_def nat_diff_distrib)
  next
    case False
    with 1 show ?thesis by (subst chunk_loop.simps) simp
  qed
qed

lemma chunk_loop_nth:
  "i \<le> n \<Longrightarrow> k < nat (n - i) \<Longrightarrow>
     chunk_loop i n cs L ! k =
       ((i + int k) * cs, if i + int k = n - 1 then L - 1 else (i + int k) * cs + cs - 1)"
proof (induction i n cs L arbitrary: k rule: chunk_loop.induct)
  case (1 i n cs L)
  from 1(3) have lt: "i < n" by simp
  show ?case
  proof (cases k)
    case 0
    with lt show ?thesis by (subst chunk_loop.simps) (simp add: Let_def)
  next
    case (Suc k')
    with 1(3) have "k' < nat (n - (i + 1))" by simp
    with 1(1)[OF lt refl refl, of k'] lt
    have "chunk_loop (i + 1) n cs L ! k' =
       ((i + 1 + int k') * cs, if i + 1 + int k' = n - 1 then L - 1 else (i + 1 + int k') * cs + cs - 1)"
      by simp
    moreover have "i + 1 + int k' = i + int k" using Suc by simp
    ultimately show ?thesis using lt Suc by (subst chunk_loop.simps) (simp add: Let_def)
  qed
qed

lemma go_div_pos: "0 < a \<Longrightarrow> 0 < b \<Longrightarrow> go_div a b = a div b"
  by (simp add: go_div_def)

lemma chunk_ranges_nth:
  assumes "0 < L" "1 \<le> N" "k < nat N"
  shows "chunk_ranges L N ! k = chunk_of L N k"
proof -
  have "go_div L N = L div N" using assms by (simp add: go_div_pos)
  moreover have "(0::int) \<le> N" "k < nat (N - 0)" using assms by simp_all
  ultimately show ?thesis
    using chunk_loop_nth[of 0 N k "L div N" L] by (simp add: chunk_ranges_def chunk_of_def)
qed

lemma chunk_ranges_length: "1 \<le> N \<Longrightarrow> length (chunk_ranges L N) = nat N"
  using chunk_loop_length[of 0 N "go_div L N" L] by (simp add: chunk_ranges_def)

lemma chunk_size_facts:
  assumes "0 < L" "1 \<le> (N::int)"
  shows "0 \<le> L div N" "N * (L div N) \<le> L"
proof -
  show "0 \<le> L div N" using assms by (simp add: pos_imp_zdiv_nonneg_iff)
  have "L = N * (L div N) + L mod N" by simp
  moreover have "0 \<le> L mod N" using assms by simp
  ultimately show "N * (L div N) \<le> L" by linarith
qed

lemma chunk_of_bounds:
  assumes "0 < L" "1 \<le> N" "k < nat N"
  shows "0 \<le> fst (chunk_of L N k)" "fst (chunk_of L N k) \<le> L"
        "-1 \<le> snd (chunk_of L N k)" "snd (chunk_of L N k) < L"
proof -
  let ?cs = "L div N"
  note cs = chunk_size_facts[OF assms(1,2)]
  have k0: "0 \<le> int k" by simp
  have kN: "int k \<le> N - 1" using assms(3) by linarith
  have a: "0 \<le> int k * ?cs" using cs(1) by simp
  have "int k * ?cs \<le> (N - 1) * ?cs" using kN cs(1) by (rule mult_right_mono)
  also have "\<dots> = N * ?cs - ?cs" by (simp add: algebra_simps)
  finally have b: "int k * ?cs + ?cs \<le> N * ?cs" by simp
  show "0 \<le> fst (chunk_of L N k)" using a by (simp add: chunk_of_def)
  show "fst (chunk_of L N k) \<le> L" using b cs by (simp add: chunk_of_def)
  have "-1 \<le> int k * ?cs + ?cs - 1" using a cs(1) by linarith
  then show "-1 \<le> snd (chunk_of L N k)" using assms(1) by (simp add: chunk_of_def)
  show "snd (chunk_of L N k) < L"
  proof (cases "int k = N - 1")
    case True
    then show ?thesis by (simp add: chunk_of_def)
  next
    case False
    with kN have "int k + 1 \<le> N - 1" by simp
    then have "(int k + 1) * ?cs \<le> (N - 1) * ?cs" using cs(1) by (rule mult_right_mono)
    then have "int k * ?cs + ?cs \<le> N * ?cs" using cs(1) by (simp add: algebra_simps)
    with False cs(2) show ?thesis by (simp add: chunk_of_def)
  qed
qed

lemma chunk_of_inside:
  assumes "0 < L" "1 \<le> N" "k < nat N" "in_range b (chunk_of L N k)"
  shows "0 \<le> b \<and> b < L"
  using chunk_of_bounds[OF assms(1,2,3)] assms(4) by (simp add: in_range_def)

lemma div_mult_bounds:
  fixes b c :: int
  assumes "0 < c"
  shows "(b div c) * c \<le> b" "b \<le> (b div c) * c + c - 1"
proof -
  have e: "c * (b div c) + b mod c = b" by (rule mult_div_mod_eq)
  have m: "0 \<le> b mod c" "b mod c < c" using assms by simp_all
  have c: "(b div c) * c = c * (b div c)" by (rule mult.commute)
  show "(b div c) * c \<le> b" unfolding c using e m by linarith
  show "b \<le> (b div c) * c + c - 1" unfolding c using e m by linarith
qed

lemma chunk_of_cover:
  assumes "0 < L" "1 \<le> N" "0 \<le> b" "b < L"
  shows "\<exists>k < nat N. in_range b (chunk_of L N k)"
proof -
  let ?cs = "L div N"
  note cs = chunk_size_facts[OF assms(1,2)]
  let ?last = "nat (N - 1)"
  have lastN: "?last < nat N" "int ?last = N - 1" using assms(2) by simp_all
  show ?thesis
  proof (cases "?cs = 0 \<or> N - 1 \<le> b div ?cs")
    case True
    have "(N - 1) * ?cs \<le> b"
    proof (cases "?cs = 0")
      case True
      then show ?thesis using assms(3) by simp
    next
      case False
      with True cs(1) have pos: "0 < ?cs" and q: "N - 1 \<le> b div ?cs" by simp_all
      have "(N - 1) * ?cs \<le> (b div ?cs) * ?cs" using q cs(1) by (rule mult_right_mono)
      also have "\<dots> \<le> b" using pos by (rule div_mult_bounds)
      finally show ?thesis .
    qed
    then have "in_range b (chunk_of L N ?last)"
      using lastN(2) assms(4) by (simp add: in_range_def chunk_of_def)
    with lastN(1) show ?thesis by blast
  next
    case False
    with cs(1) have pos: "0 < ?cs" and q: "b div ?cs < N - 1" by simp_all
    have q0: "0 \<le> b div ?cs" using assms(3) pos by (simp add: pos_imp_zdiv_nonneg_iff)
    from q0 obtain k where k: "b div ?cs = int k" using nonneg_int_cases by blast
    have kN: "k < nat N" using q unfolding k by linarith
    have "int k * ?cs \<le> b" "b \<le> int k * ?cs + ?cs - 1"
      using div_mult_bounds[OF pos, of b] unfolding k by simp_all
    moreover have "int k \<noteq> N - 1" using q unfolding k by linarith
    ultimately have "in_range b (chunk_of L N k)"
      unfolding in_range_def chunk_of_def by simp
    with kN show ?thesis by blast
  qed
qed

lemma chunk_of_disjoint_lt:
  assumes "0 < L" "1 \<le> N" "j < k" "k < nat N"
    "in_range b (chunk_of L N j)" "in_range b (chunk_of L N k)"
  shows False
proof -
  let ?cs = "L div N"
  note cs = chunk_size_facts[OF assms(1,2)]
  have jl: "int j \<noteq> N - 1" using assms(3,4) by linarith
  from assms(5) jl have 1: "b \<le> int j * ?cs + ?cs - 1" by (simp add: in_range_def chunk_of_def)
  from assms(6) have 2: "int k * ?cs \<le> b" by (simp add: in_range_def chunk_of_def)
  have "int j + 1 \<le> int k" using assms(3) by simp
  then have "(int j + 1) * ?cs \<le> int k * ?cs" using cs(1) by (rule mult_right_mono)
  then have "int j * ?cs + ?cs \<le> int k * ?cs" by (simp add: algebra_simps)
  with 1 2 show False by linarith
qed

lemma chunk_of_disjoint:
  assumes "0 < L" "1 \<le> N" "j < nat N" "k < nat N"
    "in_range b (chunk_of L N j)" "in_range b (chunk_of L N k)"
  shows "j = k"
proof (rule ccontr)
  assume "j \<noteq> k"
  then consider "j < k" | "k < j" by linarith
  then show False
  proof cases
    case 1
    from chunk_of_disjoint_lt[OF assms(1,2) 1 assms(4) assms(5,6)] show False .
  next
    case 2
    from chunk_of_disjoint_lt[OF assms(1,2) 2 assms(3) assms(6,5)] show False .
  qed
qed


text \<open>
  C5. For every content length \<open>> 0\<close> and every connection count \<open>N \<ge> 1\<close>, the ranges
  handed to the workers are \<open>N\<close> ranges with chunk size \<open>content_length div N\<close>: chunk \<open>i\<close>
  is \<open>[i * chunk_size, (i + 1) * chunk_size - 1]\<close> for \<open>i < N - 1\<close> and the last chunk is
  \<open>[(N - 1) * chunk_size, content_length - 1]\<close>. They tile \<open>[0, content_length - 1]\<close>: a byte
  offset lies in some chunk exactly when it lies in that interval, and no offset lies in
  two different chunks. Every range bound lies between \<open>-1\<close> and the content length, so
  the 64-bit arithmetic of the source cannot overflow.
\<close>

theorem chunk_ranges_tile:
  assumes "0 < contentLength" and "1 \<le> numConns"
  shows "length (chunk_ranges contentLength numConns) = nat numConns \<and>
    (\<forall>k < nat numConns. chunk_ranges contentLength numConns ! k =
        (int k * (contentLength div numConns),
         if int k = numConns - 1 then contentLength - 1
         else (int k + 1) * (contentLength div numConns) - 1)) \<and>
    (\<forall>b. (\<exists>k < nat numConns. in_range b (chunk_ranges contentLength numConns ! k))
          \<longleftrightarrow> (0 \<le> b \<and> b < contentLength)) \<and>
    (\<forall>j k b. j < nat numConns \<longrightarrow> k < nat numConns \<longrightarrow>
        in_range b (chunk_ranges contentLength numConns ! j) \<longrightarrow>
        in_range b (chunk_ranges contentLength numConns ! k) \<longrightarrow> j = k) \<and>
    (\<forall>k < nat numConns.
        0 \<le> fst (chunk_ranges contentLength numConns ! k) \<and>
        fst (chunk_ranges contentLength numConns ! k) \<le> contentLength \<and>
        - 1 \<le> snd (chunk_ranges contentLength numConns ! k) \<and>
        snd (chunk_ranges contentLength numConns ! k) < contentLength)"
proof -
  note nth = chunk_ranges_nth[OF assms]
  have 1: "length (chunk_ranges contentLength numConns) = nat numConns"
    using assms(2) by (rule chunk_ranges_length)
  have 2: "\<forall>k < nat numConns. chunk_ranges contentLength numConns ! k =
        (int k * (contentLength div numConns),
         if int k = numConns - 1 then contentLength - 1
         else (int k + 1) * (contentLength div numConns) - 1)"
    by (simp add: nth chunk_of_def algebra_simps)
  have 3: "\<forall>b. (\<exists>k < nat numConns. in_range b (chunk_ranges contentLength numConns ! k))
          \<longleftrightarrow> (0 \<le> b \<and> b < contentLength)"
  proof (intro allI iffI)
    fix b assume "\<exists>k < nat numConns. in_range b (chunk_ranges contentLength numConns ! k)"
    then obtain k where "k < nat numConns" "in_range b (chunk_of contentLength numConns k)"
      using nth by auto
    then show "0 \<le> b \<and> b < contentLength" by (rule chunk_of_inside[OF assms])
  next
    fix b assume "0 \<le> b \<and> b < contentLength"
    then obtain k where "k < nat numConns" "in_range b (chunk_of contentLength numConns k)"
      using chunk_of_cover[OF assms, of b] by blast
    then show "\<exists>k < nat numConns. in_range b (chunk_ranges contentLength numConns ! k)"
      using nth by auto
  qed
  have 4: "\<forall>j k b. j < nat numConns \<longrightarrow> k < nat numConns \<longrightarrow>
        in_range b (chunk_ranges contentLength numConns ! j) \<longrightarrow>
        in_range b (chunk_ranges contentLength numConns ! k) \<longrightarrow> j = k"
    using chunk_of_disjoint[OF assms] nth by auto
  have 5: "\<forall>k < nat numConns.
        0 \<le> fst (chunk_ranges contentLength numConns ! k) \<and>
        fst (chunk_ranges contentLength numConns ! k) \<le> contentLength \<and>
        - 1 \<le> snd (chunk_ranges contentLength numConns ! k) \<and>
        snd (chunk_ranges contentLength numConns ! k) < contentLength"
    using chunk_of_bounds[OF assms] nth by auto
  from 1 2 3 4 5 show ?thesis by blast
qed

theorem chunk_ranges_tile_witness:
  "(0 :: int) < 10 \<and> (1 :: int) \<le> 3 \<and>
   chunk_ranges 10 3 = [(0, 2), (3, 5), (6, 9)] \<and> length (chunk_ranges 10 3) = nat 3"
proof -
  have h1: "(0 :: int) < 10" and h2: "(1 :: int) \<le> 3" by simp_all
  have ev: "chunk_ranges 10 3 = [(0, 2), (3, 5), (6, 9)]" by code_simp
  from chunk_ranges_tile[OF h1 h2] have "length (chunk_ranges 10 3) = nat 3" by (rule conjunct1)
  with h1 h2 ev show ?thesis by blast
qed

section \<open>sortNodes sorts by the chosen key\<close>

text \<open>
  C7. With \<^verbatim>\<open>sort.Slice\<close> any function meeting its contract for the comparison of
  \<open>sortNodes\<close>, the slice afterwards holds the same nodes as before, with \<open>SlotAge\<close>
  non-decreasing when the sort order is \<^verbatim>\<open>"slot_age"\<close> and with \<open>Latency\<close> non-decreasing for
  every other sort order, \<^verbatim>\<open>"latency"\<close> among them. Nothing is said of the order of nodes
  whose keys are equal.
\<close>

theorem sortNodes_sorted:
  assumes spec: "sort_Slice_spec srt
      (\<lambda>ni nj. if sortOrder = ''slot_age'' then SlotAge ni < SlotAge nj
                else Latency ni < Latency nj)"
  shows "mset (sortNodes srt nodes sortOrder) = mset nodes \<and>
     (if sortOrder = ''slot_age'' then sorted (map SlotAge (sortNodes srt nodes sortOrder))
      else sorted (map Latency (sortNodes srt nodes sortOrder)))"
proof (cases "sortOrder = ''slot_age''")
  case True
  with spec have s: "sort_Slice_spec srt (\<lambda>ni nj. SlotAge ni < SlotAge nj)" by simp
  from s have "mset (srt (\<lambda>ni nj. SlotAge ni < SlotAge nj) nodes) = mset nodes"
    and "sorted_wrt (\<lambda>a b. \<not> SlotAge b < SlotAge a) (srt (\<lambda>ni nj. SlotAge ni < SlotAge nj) nodes)"
    unfolding sort_Slice_spec_def by blast+
  then show ?thesis using True by (simp add: sortNodes_def sorted_map not_less)
next
  case False
  with spec have s: "sort_Slice_spec srt (\<lambda>ni nj. Latency ni < Latency nj)" by simp
  from s have "mset (srt (\<lambda>ni nj. Latency ni < Latency nj) nodes) = mset nodes"
    and "sorted_wrt (\<lambda>a b. \<not> Latency b < Latency a) (srt (\<lambda>ni nj. Latency ni < Latency nj) nodes)"
    unfolding sort_Slice_spec_def by blast+
  then show ?thesis using False by (simp add: sortNodes_def sorted_map not_less)
qed

theorem sortNodes_sorted_witness:
  "sort_Slice_spec insertionSort
      (\<lambda>(ni :: SnapshotNode) nj. if ''latency'' = ''slot_age'' then SlotAge ni < SlotAge nj
                else Latency ni < Latency nj) \<and>
   map Latency (sortNodes insertionSort
     [\<lparr>RPCURL = ''http://10.0.0.1:8899'', SnapshotURL = ''http://10.0.0.1:8899/snapshot-100-a.tar.zst'',
        SnapshotType = SnapshotTypeFull, NodeSlot = 100, NodeBaseSlot = 0,
        Filename = ''snapshot-100-a.tar.zst'', Latency = 30000000, SlotAge = 5\<rparr>,
      \<lparr>RPCURL = ''http://10.0.0.2:8899'', SnapshotURL = ''http://10.0.0.2:8899/snapshot-90-b.tar.zst'',
        SnapshotType = SnapshotTypeFull, NodeSlot = 90, NodeBaseSlot = 0,
        Filename = ''snapshot-90-b.tar.zst'', Latency = 10000000, SlotAge = 15\<rparr>,
      \<lparr>RPCURL = ''http://10.0.0.3:8899'', SnapshotURL = ''http://10.0.0.3:8899/snapshot-95-c.tar.zst'',
        SnapshotType = SnapshotTypeFull, NodeSlot = 95, NodeBaseSlot = 0,
        Filename = ''snapshot-95-c.tar.zst'', Latency = 20000000, SlotAge = 10\<rparr>]
     ''latency'') = [10000000, 20000000, 30000000] \<and>
   sorted [10000000, 20000000, 30000000 :: int]"
  (is "?spec \<and> map Latency (sortNodes insertionSort ?nodes ''latency'') = ?ls \<and> _")
proof -
  have spec: ?spec by (rule insertionSort_spec) (auto split: if_splits)
  have run: "map Latency (sortNodes insertionSort ?nodes ''latency'') = ?ls" by code_simp
  from sortNodes_sorted[OF spec, of ?nodes]
  have "sorted (map Latency (sortNodes insertionSort ?nodes ''latency''))" by simp
  then have "sorted ?ls" unfolding run .
  with spec run show ?thesis by blast
qed

text \<open>
  The claim as stated also asks that nodes of equal key keep their order. \<^verbatim>\<open>sort.Slice\<close> is
  documented as not stable, and Go's implementation is not: thirteen nodes, the first twelve of one latency
  and the last one faster: \<^verbatim>\<open>sort.Slice\<close> chooses the node at index 6 as pivot, exchanges it
  with the first node, partitions (the node at index 1 and the last one change places),
  and puts the pivot at index 1. None of the later insertion sorts moves a node. The
  seventh node now stands before the first, and the second after all others of its
  latency.
\<close>

theorem sortNodes_unstable_counterexample:
  "map_option (map (\<lambda>n. (RPCURL n, Latency n)))
     (sortNodes (sort_Slice 3)
        (map (\<lambda>(u, l). \<lparr>RPCURL = u, SnapshotURL = u @ ''/snapshot-100-a.tar.zst'',
                          SnapshotType = SnapshotTypeFull, NodeSlot = 100, NodeBaseSlot = 0,
                          Filename = ''snapshot-100-a.tar.zst'', Latency = l, SlotAge = 5\<rparr>)
           [(''n00'', 50), (''n01'', 50), (''n02'', 50), (''n03'', 50), (''n04'', 50),
            (''n05'', 50), (''n06'', 50), (''n07'', 50), (''n08'', 50), (''n09'', 50),
            (''n10'', 50), (''n11'', 50), (''n12'', 40)])
        ''latency'') =
   Some [(''n12'', 40), (''n06'', 50), (''n02'', 50), (''n03'', 50), (''n04'', 50),
         (''n05'', 50), (''n00'', 50), (''n07'', 50), (''n08'', 50), (''n09'', 50),
         (''n10'', 50), (''n11'', 50), (''n01'', 50)]"
  by code_simp
section \<open>Prune is idempotent\<close>

text \<open>
  C8. Running \<open>Prune\<close> on the directory a first run left behind gives the result of the
  first run again: the same returned error and the same directory, so the second run
  removes nothing. This holds for an unreadable directory too (both runs return the
  error of \<open>os.ReadDir\<close> and leave it alone). \<open>sort.Slice\<close> is any function meeting
  its contract, and the listing holds each name once.
\<close>

theorem Prune_idempotent:
  assumes spec: "sort_Slice_spec srt (\<lambda>a b. Slot a > Slot b)"
    and dist: "distinct_names st"
  shows "Prune srt d (snd (Prune srt d st)) = Prune srt d st"
proof (cases st)
  case None
  then show ?thesis by (simp add: Prune_def os_ReadDir_def)
next
  case (Some es)
  with dist have d: "distinct (map Name es)" by (simp add: distinct_names_def)
  from Prune_result[OF spec d, of d] obtain es' where
    run: "Prune srt d (Some es) = (None, Some es')"
    and T: "List.map_filter (prune_temp d) es' = []"
    and F0: "prune_fulls d es = [] \<longrightarrow> prune_fulls d es' = [] \<and> prune_incs d es' = prune_incs d es"
    and F1: "prune_fulls d es \<noteq> [] \<longrightarrow>
        (\<exists>k. prune_fulls d es' = [k] \<and> k \<in> set (prune_fulls d es) \<and>
            Slot k = Max (Slot ` set (prune_fulls d es)) \<and>
            (filter (\<lambda>i. BaseSlot i = Slot k) (prune_incs d es) = [] \<longrightarrow> prune_incs d es' = []) \<and>
            (filter (\<lambda>i. BaseSlot i = Slot k) (prune_incs d es) \<noteq> [] \<longrightarrow>
               (\<exists>ki. prune_incs d es' = [ki] \<and> ki \<in> set (prune_incs d es) \<and>
                   BaseSlot ki = Slot k \<and>
                   Slot ki = Max (Slot ` set (filter (\<lambda>i. BaseSlot i = Slot k) (prune_incs d es))))))"
    by blast
  have "prune_fulls d es' = [] \<and> True \<or>
            (\<exists>k. prune_fulls d es' = [k] \<and>
               (prune_incs d es' = [] \<or> (\<exists>ki. prune_incs d es' = [ki] \<and> BaseSlot ki = Slot k)))"
    using F0 F1 by (cases "prune_fulls d es = []") blast+
  from Prune_settled[OF spec T this] run Some show ?thesis by simp
qed

theorem Prune_idempotent_witness:
  "sort_Slice_spec insertionSort (\<lambda>(a :: SnapshotFile) b. Slot a > Slot b) \<and>
   distinct_names (Some
     [\<lparr>Name = ''snapshot-100-a.tar.zst'', IsDir = False\<rparr>,
      \<lparr>Name = ''snapshot-300-c.tar.zst'', IsDir = False\<rparr>,
      \<lparr>Name = ''snapshot-200-b.tar.zst'', IsDir = False\<rparr>,
      \<lparr>Name = ''incremental-snapshot-100-150-d.tar.zst'', IsDir = False\<rparr>,
      \<lparr>Name = ''incremental-snapshot-300-340-f.tar.zst'', IsDir = False\<rparr>,
      \<lparr>Name = ''incremental-snapshot-300-350-e.tar.zst'', IsDir = False\<rparr>,
      \<lparr>Name = ''snapshot-400-x.tar.zst.tmp'', IsDir = False\<rparr>,
      \<lparr>Name = ''dir.tmp'', IsDir = True\<rparr>,
      \<lparr>Name = ''notes.txt'', IsDir = False\<rparr>]) \<and>
   Prune insertionSort ''/snapshots'' (snd (Prune insertionSort ''/snapshots'' (Some
     [\<lparr>Name = ''snapshot-100-a.tar.zst'', IsDir = False\<rparr>,
      \<lparr>Name = ''snapshot-300-c.tar.zst'', IsDir = False\<rparr>,
      \<lparr>Name = ''snapshot-200-b.tar.zst'', IsDir = False\<rparr>,
      \<lparr>Name = ''incremental-snapshot-100-150-d.tar.zst'', IsDir = False\<rparr>,
      \<lparr>Name = ''incremental-snapshot-300-340-f.tar.zst'', IsDir = False\<rparr>,
      \<lparr>Name = ''incremental-snapshot-300-350-e.tar.zst'', IsDir = False\<rparr>,
      \<lparr>Name = ''snapshot-400-x.tar.zst.tmp'', IsDir = False\<rparr>,
      \<lparr>Name = ''dir.tmp'', IsDir = True\<rparr>,
      \<lparr>Name = ''notes.txt'', IsDir = False\<rparr>]))) =
   (None, Some
     [\<lparr>Name = ''snapshot-300-c.tar.zst'', IsDir = False\<rparr>,
      \<lparr>Name = ''incremental-snapshot-300-350-e.tar.zst'', IsDir = False\<rparr>,
      \<lparr>Name = ''dir.tmp'', IsDir = True\<rparr>,
      \<lparr>Name = ''notes.txt'', IsDir = False\<rparr>])"
  (is "?spec \<and> distinct_names ?st \<and> ?again = ?out")
proof -
  have spec: ?spec by (rule insertionSort_spec_desc)
  have dist: "distinct_names ?st" by code_simp
  have run: "Prune insertionSort ''/snapshots'' ?st = ?out" by code_simp
  from Prune_idempotent[OF spec dist, of "''/snapshots''"] run have "?again = ?out" by simp
  with spec dist show ?thesis by blast
qed
section \<open>RunHooks: order, disabled hooks and failures\<close>

lemma enabled_idx_Nil [simp]: "enabled_idx i [] = []"
  by (simp add: enabled_idx_def)

lemma enabled_idx_Cons [simp]:
  "enabled_idx i (h # hs) = (if Disabled h then enabled_idx (Suc i) hs else i # enabled_idx (Suc i) hs)"
  by (simp add: enabled_idx_def)

lemma RunHooks_from_None:
  "RunHooks_from quote render exec i hs data w = (None, w', runlog) \<Longrightarrow>
     map fst runlog = enabled_idx i hs \<and>
     (\<forall>(j, e) \<in> set runlog. e = None \<or> (\<exists>h. (j, h) \<in> set (enumerate i hs) \<and> AllowFailure h))"
proof (induction hs arbitrary: i w w' runlog)
  case Nil
  then show ?case by simp
next
  case (Cons h hs)
  show ?case
  proof (cases "Disabled h")
    case True
    with Cons.prems have "RunHooks_from quote render exec (Suc i) hs data w = (None, w', runlog)" by simp
    from Cons.IH[OF this] True show ?thesis by auto
  next
    case False
    obtain r w1 where rh: "runHook quote render exec h data w = (r, w1)" by (cases "runHook quote render exec h data w")
    obtain res2 w2 log2 where rest: "RunHooks_from quote render exec (Suc i) hs data w1 = (res2, w2, log2)"
      by (cases "RunHooks_from quote render exec (Suc i) hs data w1")
    show ?thesis
    proof (cases r)
      case None
      with Cons.prems False rh rest have eq: "res2 = None" "w2 = w'" "runlog = (i, None) # log2" by simp_all
      from Cons.IH[OF rest[unfolded eq(1)]] False eq show ?thesis by auto
    next
      case (Some err)
      with Cons.prems False rh rest have af: "AllowFailure h"
        by (cases "AllowFailure h") simp_all
      with Some Cons.prems False rh rest have eq: "res2 = None" "w2 = w'" "runlog = (i, Some err) # log2" by simp_all
      from Cons.IH[OF rest[unfolded eq(1)]] False eq af show ?thesis by auto
    qed
  qed
qed


lemma RunHooks_from_Some:
  "RunHooks_from quote render exec i hs data w = (Some e, w', runlog) \<Longrightarrow>
     \<exists>pre h post err. hs = pre @ h # post \<and> \<not> Disabled h \<and> \<not> AllowFailure h \<and>
        e = Wrapped (''hook '' @ quote (HookName h) @ '' failed'') err \<and>
        map fst runlog = enabled_idx i (pre @ [h]) \<and>
        runlog \<noteq> [] \<and> last runlog = (i + length pre, Some err) \<and>
        (\<forall>(j, e') \<in> set (butlast runlog).
           e' = None \<or> (\<exists>h'. (j, h') \<in> set (enumerate i pre) \<and> AllowFailure h'))"
proof (induction hs arbitrary: i w w' runlog)
  case Nil
  then show ?case by simp
next
  case (Cons h hs)
  let ?G = "\<lambda>i hs runlog. \<exists>pre h post err. hs = pre @ h # post \<and> \<not> Disabled h \<and> \<not> AllowFailure h \<and>
        e = Wrapped (''hook '' @ quote (HookName h) @ '' failed'') err \<and>
        map fst runlog = enabled_idx i (pre @ [h]) \<and>
        runlog \<noteq> [] \<and> last runlog = (i + length pre, Some err) \<and>
        (\<forall>(j, e') \<in> set (butlast runlog).
           e' = None \<or> (\<exists>h'. (j, h') \<in> set (enumerate i pre) \<and> AllowFailure h'))"
  have lift: "?G i (h # hs) (x @ log2)" if g: "?G (Suc i) hs log2"
     and x: "x = [] \<and> Disabled h \<or> (\<exists>r. x = [(i, r)] \<and> \<not> Disabled h \<and> (r = None \<or> AllowFailure h))"
    for x log2
  proof -
    from g obtain pre h2 post err where p: "hs = pre @ h2 # post" "\<not> Disabled h2" "\<not> AllowFailure h2"
      "e = Wrapped (''hook '' @ quote (HookName h2) @ '' failed'') err"
      "map fst log2 = enabled_idx (Suc i) (pre @ [h2])" "log2 \<noteq> []"
      "last log2 = (Suc i + length pre, Some err)"
      "\<forall>(j, e') \<in> set (butlast log2).
           e' = None \<or> (\<exists>h'. (j, h') \<in> set (enumerate (Suc i) pre) \<and> AllowFailure h')" by blast
    have 1: "h # hs = (h # pre) @ h2 # post" using p(1) by simp
    have 2: "map fst (x @ log2) = enabled_idx i ((h # pre) @ [h2])" using x p(5) by auto
    have 3: "x @ log2 \<noteq> []" using p(6) by simp
    have 4: "last (x @ log2) = (i + length (h # pre), Some err)" using p(6,7) by simp
    have bl: "butlast (x @ log2) = x @ butlast log2" using p(6) by (simp add: butlast_append)
    have 5: "\<forall>(j, e') \<in> set (butlast (x @ log2)).
           e' = None \<or> (\<exists>h'. (j, h') \<in> set (enumerate i (h # pre)) \<and> AllowFailure h')"
      unfolding bl using x p(8) by auto
    from 1 2 3 4 5 p(2,3,4) show ?thesis by blast
  qed
  show ?case
  proof (cases "Disabled h")
    case True
    with Cons.prems have "RunHooks_from quote render exec (Suc i) hs data w = (Some e, w', runlog)" by simp
    from lift[OF Cons.IH[OF this], of "[]"] True show ?thesis by simp
  next
    case False
    obtain r w1 where rh: "runHook quote render exec h data w = (r, w1)" by (cases "runHook quote render exec h data w")
    obtain res2 w2 log2 where rest: "RunHooks_from quote render exec (Suc i) hs data w1 = (res2, w2, log2)"
      by (cases "RunHooks_from quote render exec (Suc i) hs data w1")
    show ?thesis
    proof (cases r)
      case None
      with Cons.prems False rh rest have eq: "res2 = Some e" "w2 = w'" "runlog = [(i, None)] @ log2" by simp_all
      from lift[OF Cons.IH[OF rest[unfolded eq(1)]], of "[(i, None)]"] False eq show ?thesis by simp
    next
      case (Some err)
      show ?thesis
      proof (cases "AllowFailure h")
        case True
        with Some Cons.prems False rh rest
        have eq: "res2 = Some e" "w2 = w'" "runlog = [(i, Some err)] @ log2" by simp_all
        from lift[OF Cons.IH[OF rest[unfolded eq(1)]], of "[(i, Some err)]"] False True eq
        show ?thesis by simp
      next
        case af: False
        with Some Cons.prems False rh
        have eq: "e = Wrapped (''hook '' @ quote (HookName h) @ '' failed'') err" "runlog = [(i, Some err)]"
          by simp_all
        have "h # hs = [] @ h # hs" by simp
        moreover have "map fst runlog = enabled_idx i ([] @ [h])" using eq False by simp
        moreover have "last runlog = (i + length ([] :: HookCommand list), Some err)" using eq by simp
        moreover have "\<forall>(j, e') \<in> set (butlast runlog).
           e' = None \<or> (\<exists>h'. (j, h') \<in> set (enumerate i []) \<and> AllowFailure h')" using eq by simp
        moreover have "runlog \<noteq> []" using eq by simp
        ultimately show ?thesis using False af eq(1) by blast
      qed
    qed
  qed
qed


lemma enabled_idx_snoc:
  "enabled_idx 0 (hs @ [h]) = enabled_idx 0 hs @ (if Disabled h then [] else [length hs])"
  by (simp add: enabled_idx_def enumerate_append_eq)

lemma enabled_idx_filter_upt:
  "enabled_idx 0 hs = filter (\<lambda>j. \<not> Disabled (hs ! j)) [0..<length hs]"
proof (induction hs rule: rev_induct)
  case Nil
  then show ?case by simp
next
  case (snoc h hs)
  have "filter (\<lambda>j. \<not> Disabled ((hs @ [h]) ! j)) [0..<length hs]
      = filter (\<lambda>j. \<not> Disabled (hs ! j)) [0..<length hs]"
    by (rule filter_cong) (simp_all add: nth_append)
  then show ?case using snoc by (simp add: enabled_idx_snoc)
qed

lemma enabled_idx_prefix:
  "enabled_idx 0 (pre @ [h]) = filter (\<lambda>j. \<not> Disabled ((pre @ h # post) ! j)) [0..<Suc (length pre)]"
proof -
  have "filter (\<lambda>j. \<not> Disabled ((pre @ [h]) ! j)) [0..<length (pre @ [h])]
      = filter (\<lambda>j. \<not> Disabled ((pre @ h # post) ! j)) [0..<length (pre @ [h])]"
    by (rule filter_cong) (auto simp add: nth_append less_Suc_eq)
  then show ?thesis unfolding enabled_idx_filter_upt by simp
qed

lemma filter_upt_props:
  "sorted_wrt (<) (filter P [0..<m])" "j \<in> set (filter P [0..<m]) \<Longrightarrow> j < m \<and> P j"
  by (simp_all add: sorted_wrt_filter)

lemma RunHooks_from_world:
  assumes "RunHooks_from quote render exec i hs data w = (res, w', runlog)"
    and "\<And>j. j < length hs \<Longrightarrow> hk (i + j) = hs ! j"
  shows "w' = foldl (\<lambda>w j. snd (runHook quote render exec (hk j) data w)) w (map fst runlog)"
  using assms
proof (induction hs arbitrary: i w res w' runlog)
  case Nil
  then show ?case by simp
next
  case (Cons h hs)
  have hk0: "hk i = h" using Cons.prems(2)[of 0] by simp
  have hkS: "\<And>j. j < length hs \<Longrightarrow> hk (Suc i + j) = hs ! j"
    using Cons.prems(2)[of "Suc j" for j] by simp
  show ?case
  proof (cases "Disabled h")
    case True
    with Cons.prems(1) have "RunHooks_from quote render exec (Suc i) hs data w = (res, w', runlog)"
      by simp
    from Cons.IH[OF this hkS] show ?thesis by simp
  next
    case False
    obtain r w1 where rh: "runHook quote render exec h data w = (r, w1)"
      by (cases "runHook quote render exec h data w")
    obtain res2 w2 log2 where
      rest: "RunHooks_from quote render exec (Suc i) hs data w1 = (res2, w2, log2)"
      by (cases "RunHooks_from quote render exec (Suc i) hs data w1")
    from Cons.IH[OF rest hkS]
    have ih: "w2 = foldl (\<lambda>w j. snd (runHook quote render exec (hk j) data w)) w1 (map fst log2)" .
    show ?thesis
    proof (cases "\<exists>err. r = Some err \<and> \<not> AllowFailure h")
      case True
      then obtain err where "r = Some err" "\<not> AllowFailure h" by blast
      with Cons.prems(1) False rh have "w' = w1" "runlog = [(i, Some err)]" by simp_all
      then show ?thesis using rh hk0 by simp
    next
      case go: False
      with Cons.prems(1) False rh rest have "w' = w2" "runlog = (i, r) # log2"
        by (cases r; cases "AllowFailure h"; simp)+
      then show ?thesis using ih rh hk0 by simp
    qed
  qed
qed

lemma RunHooks_from_results:
  assumes "RunHooks_from quote render exec i hs data w = (res, w', runlog)"
    and "\<And>j. j < length hs \<Longrightarrow> hk (i + j) = hs ! j"
  shows "\<forall>n < length runlog. snd (runlog ! n) =
     fst (runHook quote render exec (hk (fst (runlog ! n))) data
       (foldl (\<lambda>w j. snd (runHook quote render exec (hk j) data w)) w (take n (map fst runlog))))"
  using assms
proof (induction hs arbitrary: i w res w' runlog)
  case Nil
  then show ?case by simp
next
  case (Cons h hs)
  let ?S = "\<lambda>w j. snd (runHook quote render exec (hk j) data w)"
  have hk0: "hk i = h" using Cons.prems(2)[of 0] by simp
  have hkS: "\<And>j. j < length hs \<Longrightarrow> hk (Suc i + j) = hs ! j"
    using Cons.prems(2)[of "Suc j" for j] by simp
  show ?case
  proof (cases "Disabled h")
    case True
    with Cons.prems(1) have "RunHooks_from quote render exec (Suc i) hs data w = (res, w', runlog)"
      by simp
    from Cons.IH[OF this hkS] show ?thesis .
  next
    case False
    obtain r w1 where rh: "runHook quote render exec h data w = (r, w1)"
      by (cases "runHook quote render exec h data w")
    obtain res2 w2 log2 where
      rest: "RunHooks_from quote render exec (Suc i) hs data w1 = (res2, w2, log2)"
      by (cases "RunHooks_from quote render exec (Suc i) hs data w1")
    from Cons.IH[OF rest hkS]
    have ih: "\<forall>n < length log2. snd (log2 ! n) =
       fst (runHook quote render exec (hk (fst (log2 ! n))) data (foldl ?S w1 (take n (map fst log2))))" .
    have shape: "runlog = [(i, r)] \<or> runlog = (i, r) # log2"
      using Cons.prems(1) False rh rest by (cases r; cases "AllowFailure h"; simp)
    show ?thesis
    proof (intro allI impI)
      fix n assume n: "n < length runlog"
      show "snd (runlog ! n) =
        fst (runHook quote render exec (hk (fst (runlog ! n))) data (foldl ?S w (take n (map fst runlog))))"
      proof (cases n)
        case 0
        from shape have "runlog ! 0 = (i, r)" by auto
        with 0 rh hk0 show ?thesis by simp
      next
        case (Suc m)
        with n shape have rl: "runlog = (i, r) # log2" and m: "m < length log2" by auto
        from ih m have "snd (log2 ! m) =
          fst (runHook quote render exec (hk (fst (log2 ! m))) data (foldl ?S w1 (take m (map fst log2))))"
          by blast
        then show ?thesis using Suc rl rh hk0 by simp
      qed
    qed
  qed
qed

text \<open>
  C10. For every hook list and template data, \<open>RunHooks\<close> hands hooks to \<open>runHook\<close> in
  list order (the indices of the run log increase), never runs a hook whose \<open>Disabled\<close>
  flag is set, goes on with the next hook after a failure of a hook whose \<open>AllowFailure\<close>
  flag is set (when it returns no error the log holds every enabled hook, and every
  logged failure was an allowed one), and when a hook fails with \<open>AllowFailure\<close> unset it
  returns that hook's error at once: the failing hook is the last of the log, and the
  log holds the enabled hooks up to it and no later one. The log is what was executed:
  the world afterwards is the world before with \<open>runHook\<close> applied for the logged hooks,
  one after the other and for no other hook, and each logged result is what \<open>runHook\<close>
  returned for that hook in the world the earlier ones left.
\<close>

theorem RunHooks_order_and_failure:
  assumes "RunHooks quote render exec hooks data w = (res, w', runlog)"
  shows "sorted_wrt (<) (map fst runlog) \<and>
    (\<forall>(j, e) \<in> set runlog. j < length hooks \<and> \<not> Disabled (hooks ! j)) \<and>
    w' = foldl (\<lambda>w j. snd (runHook quote render exec (hooks ! j) data w)) w (map fst runlog) \<and>
    (\<forall>n < length runlog. snd (runlog ! n) =
       fst (runHook quote render exec (hooks ! fst (runlog ! n)) data
         (foldl (\<lambda>w j. snd (runHook quote render exec (hooks ! j) data w)) w
            (take n (map fst runlog))))) \<and>
    (res = None \<longrightarrow>
       map fst runlog = filter (\<lambda>j. \<not> Disabled (hooks ! j)) [0..<length hooks] \<and>
       (\<forall>(j, e) \<in> set runlog. e = None \<or> AllowFailure (hooks ! j))) \<and>
    (\<forall>e. res = Some e \<longrightarrow>
       (\<exists>k err. k < length hooks \<and> \<not> Disabled (hooks ! k) \<and> \<not> AllowFailure (hooks ! k) \<and>
          e = Wrapped (''hook '' @ quote (HookName (hooks ! k)) @ '' failed'') err \<and>
          runlog \<noteq> [] \<and> last runlog = (k, Some err) \<and>
          map fst runlog = filter (\<lambda>j. \<not> Disabled (hooks ! j)) [0..<Suc k] \<and>
          (\<forall>(j, e') \<in> set (butlast runlog). e' = None \<or> AllowFailure (hooks ! j))))"
proof -
  from assms have run: "RunHooks_from quote render exec 0 hooks data w = (res, w', runlog)"
    by (simp add: RunHooks_def)
  have wd: "w' = foldl (\<lambda>w j. snd (runHook quote render exec (hooks ! j) data w)) w (map fst runlog)"
    by (rule RunHooks_from_world[OF run]) simp
  have rs: "\<forall>n < length runlog. snd (runlog ! n) =
       fst (runHook quote render exec (hooks ! fst (runlog ! n)) data
         (foldl (\<lambda>w j. snd (runHook quote render exec (hooks ! j) data w)) w
            (take n (map fst runlog))))"
    by (rule RunHooks_from_results[OF run]) simp
  show ?thesis
proof (cases res)
  case None
  with assms have "RunHooks_from quote render exec 0 hooks data w = (None, w', runlog)"
    by (simp add: RunHooks_def)
  from RunHooks_from_None[OF this]
  have m: "map fst runlog = filter (\<lambda>j. \<not> Disabled (hooks ! j)) [0..<length hooks]"
    and a: "\<forall>(j, e) \<in> set runlog. e = None \<or> (\<exists>h. (j, h) \<in> set (enumerate 0 hooks) \<and> AllowFailure h)"
    unfolding enabled_idx_filter_upt by simp_all
  have s: "sorted_wrt (<) (map fst runlog)" unfolding m by (rule filter_upt_props)
  have d: "\<forall>(j, e) \<in> set runlog. j < length hooks \<and> \<not> Disabled (hooks ! j)"
  proof (clarify)
    fix j e assume "(j, e) \<in> set runlog"
    then have "j \<in> set (map fst runlog)" by force
    then show "j < length hooks \<and> \<not> Disabled (hooks ! j)" unfolding m by (rule filter_upt_props)
  qed
  have a': "\<forall>(j, e) \<in> set runlog. e = None \<or> AllowFailure (hooks ! j)"
    using a by (auto simp: in_set_enumerate_eq)
  from None s d m a' wd rs show ?thesis by simp
next
  case (Some e)
  with assms have "RunHooks_from quote render exec 0 hooks data w = (Some e, w', runlog)"
    by (simp add: RunHooks_def)
  from RunHooks_from_Some[OF this] obtain pre h post err where
    p: "hooks = pre @ h # post" "\<not> Disabled h" "\<not> AllowFailure h"
       "e = Wrapped (''hook '' @ quote (HookName h) @ '' failed'') err"
       "map fst runlog = enabled_idx 0 (pre @ [h])" "runlog \<noteq> []"
       "last runlog = (0 + length pre, Some err)"
       "\<forall>(j, e') \<in> set (butlast runlog).
           e' = None \<or> (\<exists>h'. (j, h') \<in> set (enumerate 0 pre) \<and> AllowFailure h')" by blast
  let ?k = "length pre"
  have hk: "hooks ! ?k = h" and kl: "?k < length hooks" using p(1) by simp_all
  have m: "map fst runlog = filter (\<lambda>j. \<not> Disabled (hooks ! j)) [0..<Suc ?k]"
    unfolding p(5) p(1) by (rule enabled_idx_prefix)
  have s: "sorted_wrt (<) (map fst runlog)" unfolding m by (rule filter_upt_props)
  have d: "\<forall>(j, e) \<in> set runlog. j < length hooks \<and> \<not> Disabled (hooks ! j)"
  proof (clarify)
    fix j e assume "(j, e) \<in> set runlog"
    then have "j \<in> set (map fst runlog)" by force
    then have "j < Suc ?k \<and> \<not> Disabled (hooks ! j)" unfolding m by (rule filter_upt_props)
    with kl show "j < length hooks \<and> \<not> Disabled (hooks ! j)" by simp
  qed
  have a': "\<forall>(j, e') \<in> set (butlast runlog). e' = None \<or> AllowFailure (hooks ! j)"
    using p(8) unfolding p(1) by (auto simp: in_set_enumerate_eq nth_append)
  have "\<exists>k err. k < length hooks \<and> \<not> Disabled (hooks ! k) \<and> \<not> AllowFailure (hooks ! k) \<and>
          e = Wrapped (''hook '' @ quote (HookName (hooks ! k)) @ '' failed'') err \<and>
          runlog \<noteq> [] \<and> last runlog = (k, Some err) \<and>
          map fst runlog = filter (\<lambda>j. \<not> Disabled (hooks ! j)) [0..<Suc k] \<and>
          (\<forall>(j, e') \<in> set (butlast runlog). e' = None \<or> AllowFailure (hooks ! j))"
    using kl hk p(2,3,4,6,7) m a' by (intro exI[of _ ?k] exI[of _ err]) simp
  with Some s d wd rs show ?thesis by simp
qed
qed

theorem RunHooks_order_and_failure_witness:
  "RunHooks (\<lambda>s. [CHR 0x22] @ s @ [CHR 0x22]) (\<lambda>t (d :: unit). Inr t)
      (\<lambda>cmd args env stream (w :: string list).
          (if cmd = ''false'' then Some (Err ''exit status 1'') else None, w @ [cmd]))
      [\<lparr>HookName = ''disabled-hook'', Cmd = ''false'', Args = [], Environment = [],
         AllowFailure = False, StreamOutput = False, Disabled = True\<rparr>,
       \<lparr>HookName = ''failing-hook'', Cmd = ''false'', Args = [], Environment = [],
         AllowFailure = True, StreamOutput = False, Disabled = False\<rparr>,
       \<lparr>HookName = ''after-failure'', Cmd = ''echo'', Args = [''still runs''], Environment = [],
         AllowFailure = False, StreamOutput = False, Disabled = False\<rparr>,
       \<lparr>HookName = ''fatal-hook'', Cmd = ''false'', Args = [], Environment = [],
         AllowFailure = False, StreamOutput = False, Disabled = False\<rparr>,
       \<lparr>HookName = ''should-not-run'', Cmd = ''echo'', Args = [], Environment = [],
         AllowFailure = False, StreamOutput = False, Disabled = False\<rparr>]
      () []
    = (Some (Wrapped (''hook '' @ [CHR 0x22] @ ''fatal-hook'' @ [CHR 0x22] @ '' failed'')
         (Err ''exit status 1'')),
       [''false'', ''echo'', ''false''],
       [(1, Some (Err ''exit status 1'')), (2, None), (3, Some (Err ''exit status 1''))]) \<and>
   sorted_wrt (<) (map fst [(1 :: nat, Some (Err ''exit status 1'')), (2, None), (3, Some (Err ''exit status 1''))])"
  (is "?run = ?out \<and> _")
proof -
  have run: "?run = ?out" by code_simp
  from RunHooks_order_and_failure[OF run] have "sorted_wrt (<) (map fst [(1 :: nat, Some (Err ''exit status 1'')), (2, None), (3, Some (Err ''exit status 1''))])"
    by (rule conjunct1)
  with run show ?thesis by (rule conjI)
qed

section \<open>Download: the temp file and the destination\<close>

lemma downloadSingle_files:
  assumes "downloadSingle E ctx url tempPath opts fs now = (tot, err, fs1, t)"
  shows "(\<forall>p. p \<noteq> tempPath \<longrightarrow> fs1 p = fs p) \<and> (err = None \<longrightarrow> fs1 tempPath \<noteq> None)"
  using assms
  by (auto simp: downloadSingle_def Let_def
      split: get_result.splits if_splits option.splits prod.splits)

lemma downloadParallel_files:
  assumes "downloadParallel E ctx url tempPath contentLength opts fs now = (tot, err, fs1, t)"
  shows "(\<forall>p. p \<noteq> tempPath \<longrightarrow> fs1 p = fs p) \<and> (err = None \<longrightarrow> fs1 tempPath \<noteq> None)"
  using assms
  by (auto simp: downloadParallel_def Let_def split: option.splits prod.splits)

lemma download_either_files:
  assumes "download_either E ctx url tempPath contentLength acceptRanges opts fs now = (tot, err, fs1, t)"
  shows "(\<forall>p. p \<noteq> tempPath \<longrightarrow> fs1 p = fs p) \<and> (err = None \<longrightarrow> fs1 tempPath \<noteq> None)"
proof (cases "(acceptRanges = ''bytes'' \<and> contentLength > 0) \<and> DownloadConnections opts > 1")
  case True
  with assms have "downloadParallel E ctx url tempPath contentLength opts fs now = (tot, err, fs1, t)"
    by (simp add: download_either_def)
  then show ?thesis by (rule downloadParallel_files)
next
  case False
  with assms have "downloadSingle E ctx url tempPath opts fs now = (tot, err, fs1, t)"
    by (auto simp add: download_either_def split: if_splits)
  then show ?thesis by (rule downloadSingle_files)
qed

lemma temp_not_dest: "d @ ''.tmp'' \<noteq> d"
  by simp

lemma Download_head_failure:
  assumes "\<not> (\<exists>n h. http_Head E = HeadResponse n h)"
  shows "\<exists>e. Download E ctx url destDir filename opts fs = (Inl e, fs)"
  using assms by (cases "http_Head E") (simp_all add: Download_def Let_def)

lemma Download_after_head:
  assumes head: "http_Head E = HeadResponse n h"
    and dl: "download_either E ctx url (filepath_Join destDir filename @ ''.tmp'') n h opts fs
               (http_Head_took E) = (tot, err, fs1, t)"
    and run: "Download E ctx url destDir filename opts fs = (r, fs')"
  shows "(\<forall>p. p \<noteq> filepath_Join destDir filename \<and> p \<noteq> filepath_Join destDir filename @ ''.tmp''
            \<longrightarrow> fs' p = fs p) \<and>
         fs' (filepath_Join destDir filename @ ''.tmp'') = None \<and>
         (\<forall>e. r = Inl e \<longrightarrow> fs' (filepath_Join destDir filename) = fs (filepath_Join destDir filename)) \<and>
         (\<forall>res. r = Inr res \<longrightarrow> err = None \<and>
            res = \<lparr>FilePath = filepath_Join destDir filename, Bytes = tot,
                    Duration = t - http_Head_took E\<rparr> \<and>
            fs1 (filepath_Join destDir filename @ ''.tmp'') \<noteq> None \<and>
            fs' (filepath_Join destDir filename) = fs1 (filepath_Join destDir filename @ ''.tmp''))"
proof -
  let ?dest = "filepath_Join destDir filename"
  let ?tmp = "?dest @ ''.tmp''"
  have ne: "?tmp \<noteq> ?dest" by (rule temp_not_dest)
  from download_either_files[OF dl]
  have frame: "\<forall>p. p \<noteq> ?tmp \<longrightarrow> fs1 p = fs p" and made: "err = None \<longrightarrow> fs1 ?tmp \<noteq> None"
    by blast+
  from frame ne have d1: "fs1 ?dest = fs ?dest" by metis
  show ?thesis
  proof (cases err)
    case (Some e)
    with head dl run have "r = Inl e" "fs' = fs_Remove ?tmp fs1"
      by (simp_all add: Download_def Let_def)
    then show ?thesis using frame d1 ne by (simp add: fs_Remove_def)
  next
    case None
    with made obtain content where c: "fs1 ?tmp = Some content" by blast
    show ?thesis
    proof (cases "os_Rename_err E")
      case (Some e)
      with None c head dl run have "r = Inl (Wrapped ''renaming temp file'' e)" "fs' = fs_Remove ?tmp fs1"
        by (simp_all add: Download_def Let_def os_Rename_def)
      then show ?thesis using frame d1 ne by (simp add: fs_Remove_def)
    next
      case rn: None
      with None c head dl run
      have "r = Inr \<lparr>FilePath = ?dest, Bytes = tot, Duration = t - http_Head_took E\<rparr>"
        "fs' = (fs1(?tmp := None))(?dest \<mapsto> content)"
        by (simp_all add: Download_def Let_def os_Rename_def)
      then show ?thesis using frame ne c None by simp
    qed
  qed
qed

text \<open>
  C2. \<open>Download\<close> touches no file but the destination and the temp file. When it returns
  a result, the \<^verbatim>\<open>HEAD\<close> request was answered, the download into the temp file returned
  no error, the destination holds what the download left in the temp file, and the
  temp file is gone. When it returns an error the destination is as it was before (it
  still does not exist if it did not), and the temp file is gone whenever the \<^verbatim>\<open>HEAD\<close>
  request was answered or there was no temp file before; when the \<^verbatim>\<open>HEAD\<close> request fails,
  no file is touched at all.
\<close>

theorem Download_atomic_finalize:
  assumes run: "Download E ctx url destDir filename opts fs = (r, fs')"
  shows
    "(\<forall>p. p \<noteq> filepath_Join destDir filename \<and> p \<noteq> filepath_Join destDir filename @ ''.tmp''
         \<longrightarrow> fs' p = fs p) \<and>
     (\<forall>res. r = Inr res \<longrightarrow>
        FilePath res = filepath_Join destDir filename \<and>
        fs' (filepath_Join destDir filename) \<noteq> None \<and>
        fs' (filepath_Join destDir filename @ ''.tmp'') = None \<and>
        (\<exists>n h fs1 t. http_Head E = HeadResponse n h \<and>
           download_either E ctx url (filepath_Join destDir filename @ ''.tmp'') n h opts fs
             (http_Head_took E) = (Bytes res, None, fs1, t) \<and>
           fs' (filepath_Join destDir filename) = fs1 (filepath_Join destDir filename @ ''.tmp''))) \<and>
     (\<forall>e. r = Inl e \<longrightarrow>
        fs' (filepath_Join destDir filename) = fs (filepath_Join destDir filename) \<and>
        ((\<exists>n h. http_Head E = HeadResponse n h) \<or>
          fs (filepath_Join destDir filename @ ''.tmp'') = None
            \<longrightarrow> fs' (filepath_Join destDir filename @ ''.tmp'') = None) \<and>
        (\<not> (\<exists>n h. http_Head E = HeadResponse n h) \<longrightarrow> fs' = fs))"
proof (cases "\<exists>n h. http_Head E = HeadResponse n h")
  case False
  from Download_head_failure[OF False, of ctx url destDir filename opts fs] run
  obtain e where "r = Inl e" "fs' = fs" by auto
  with False show ?thesis by simp
next
  case True
  then obtain n h where head: "http_Head E = HeadResponse n h" by blast
  obtain tot err fs1 t where
    dl: "download_either E ctx url (filepath_Join destDir filename @ ''.tmp'') n h opts fs
           (http_Head_took E) = (tot, err, fs1, t)"
    by (metis prod_cases4)
  note a = Download_after_head[OF head dl run]
  from a have frame: "\<forall>p. p \<noteq> filepath_Join destDir filename \<and>
       p \<noteq> filepath_Join destDir filename @ ''.tmp'' \<longrightarrow> fs' p = fs p"
    and tmp: "fs' (filepath_Join destDir filename @ ''.tmp'') = None"
    and bad: "\<forall>e. r = Inl e \<longrightarrow> fs' (filepath_Join destDir filename) = fs (filepath_Join destDir filename)"
    and good: "\<forall>res. r = Inr res \<longrightarrow> err = None \<and>
            res = \<lparr>FilePath = filepath_Join destDir filename, Bytes = tot,
                    Duration = t - http_Head_took E\<rparr> \<and>
            fs1 (filepath_Join destDir filename @ ''.tmp'') \<noteq> None \<and>
            fs' (filepath_Join destDir filename) = fs1 (filepath_Join destDir filename @ ''.tmp'')"
    by blast+
  have g: "FilePath res = filepath_Join destDir filename \<and>
        fs' (filepath_Join destDir filename) \<noteq> None \<and>
        fs' (filepath_Join destDir filename @ ''.tmp'') = None \<and>
        (\<exists>n h fs1 t. http_Head E = HeadResponse n h \<and>
           download_either E ctx url (filepath_Join destDir filename @ ''.tmp'') n h opts fs
             (http_Head_took E) = (Bytes res, None, fs1, t) \<and>
           fs' (filepath_Join destDir filename) = fs1 (filepath_Join destDir filename @ ''.tmp''))"
    if r: "r = Inr res" for res
  proof -
    from good r have e: "err = None" and
      res: "res = \<lparr>FilePath = filepath_Join destDir filename, Bytes = tot,
                    Duration = t - http_Head_took E\<rparr>"
      and ex: "fs1 (filepath_Join destDir filename @ ''.tmp'') \<noteq> None"
      and eq: "fs' (filepath_Join destDir filename) = fs1 (filepath_Join destDir filename @ ''.tmp'')"
      by blast+
    from res have b: "Bytes res = tot" and f: "FilePath res = filepath_Join destDir filename" by simp_all
    from dl e b have "download_either E ctx url (filepath_Join destDir filename @ ''.tmp'') n h opts fs
             (http_Head_took E) = (Bytes res, None, fs1, t)" by simp
    with head eq ex tmp f show ?thesis by metis
  qed
  from frame tmp bad g True show ?thesis by blast
qed

theorem Download_atomic_finalize_witness:
  "fst (Download
      \<lparr>http_Head = HeadResponse 6 [], http_Head_took = 20000000,
        http_Get = GetResponse 200
          [\<lparr>read_took = 1000000000, read_bytes = ''abc'', read_err = ReadNil, write_err = None\<rparr>,
           \<lparr>read_took = 1000000000, read_bytes = ''def'', read_err = ReadEOF, write_err = None\<rparr>],
        http_Get_took = 30000000, os_Create_err = None, Truncate_err = None, os_Rename_err = None,
        chunk_workers = (\<lambda>ranges delay minSpeed ctx now. (0, [], 0, None)),
        float_below = (\<lambda>b d m. b * 1000000000 < m * d),
        float_speed = (\<lambda>b d. b * 1000000000 div d),
        fmt_1f = (\<lambda>b c. fmt_d (b div c))\<rparr>
      None ''http://10.0.0.1:8899/snapshot-100-a.tar.zst'' ''/snapshots'' ''snapshot-100-a.tar.zst''
      \<lparr>MinDownloadSpeedBytes = 0, MinSpeedCheckDelay = 7000000000, DownloadConnections = 8,
        DownloadTimeout = 1800000000000\<rparr>
      Map.empty) =
     Inr \<lparr>FilePath = ''/snapshots/snapshot-100-a.tar.zst'', Bytes = 6, Duration = 2030000000\<rparr> \<and>
   snd (Download
      \<lparr>http_Head = HeadResponse 6 [], http_Head_took = 20000000,
        http_Get = GetResponse 200
          [\<lparr>read_took = 1000000000, read_bytes = ''abc'', read_err = ReadNil, write_err = None\<rparr>,
           \<lparr>read_took = 1000000000, read_bytes = ''def'', read_err = ReadEOF, write_err = None\<rparr>],
        http_Get_took = 30000000, os_Create_err = None, Truncate_err = None, os_Rename_err = None,
        chunk_workers = (\<lambda>ranges delay minSpeed ctx now. (0, [], 0, None)),
        float_below = (\<lambda>b d m. b * 1000000000 < m * d),
        float_speed = (\<lambda>b d. b * 1000000000 div d),
        fmt_1f = (\<lambda>b c. fmt_d (b div c))\<rparr>
      None ''http://10.0.0.1:8899/snapshot-100-a.tar.zst'' ''/snapshots'' ''snapshot-100-a.tar.zst''
      \<lparr>MinDownloadSpeedBytes = 0, MinSpeedCheckDelay = 7000000000, DownloadConnections = 8,
        DownloadTimeout = 1800000000000\<rparr>
      Map.empty) ''/snapshots/snapshot-100-a.tar.zst'' = Some ''abcdef'' \<and>
   snd (Download
      \<lparr>http_Head = HeadResponse 6 [], http_Head_took = 20000000,
        http_Get = GetResponse 200
          [\<lparr>read_took = 1000000000, read_bytes = ''abc'', read_err = ReadNil, write_err = None\<rparr>,
           \<lparr>read_took = 1000000000, read_bytes = ''def'', read_err = ReadEOF, write_err = None\<rparr>],
        http_Get_took = 30000000, os_Create_err = None, Truncate_err = None, os_Rename_err = None,
        chunk_workers = (\<lambda>ranges delay minSpeed ctx now. (0, [], 0, None)),
        float_below = (\<lambda>b d m. b * 1000000000 < m * d),
        float_speed = (\<lambda>b d. b * 1000000000 div d),
        fmt_1f = (\<lambda>b c. fmt_d (b div c))\<rparr>
      None ''http://10.0.0.1:8899/snapshot-100-a.tar.zst'' ''/snapshots'' ''snapshot-100-a.tar.zst''
      \<lparr>MinDownloadSpeedBytes = 0, MinSpeedCheckDelay = 7000000000, DownloadConnections = 8,
        DownloadTimeout = 1800000000000\<rparr>
      Map.empty) ''/snapshots/snapshot-100-a.tar.zst.tmp'' = None"
  (is "fst ?D = ?R \<and> snd ?D ?dest = Some ?c \<and> snd ?D ?tmp = None")
proof -
  have r: "fst ?D = ?R" by code_simp
  have d: "snd ?D ?dest = Some ?c" by code_simp
  have p: "filepath_Join ''/snapshots'' ''snapshot-100-a.tar.zst'' @ ''.tmp'' = ?tmp"
    by (simp add: filepath_Join_def)
  from Download_atomic_finalize[OF prod.collapse[symmetric, of ?D]] r
  have "snd ?D (filepath_Join ''/snapshots'' ''snapshot-100-a.tar.zst'' @ ''.tmp'') = None"
    by blast
  then have "snd ?D ?tmp = None" unfolding p .
  with r d show ?thesis by blast
qed

text \<open>
  The claim as stated promises that the temp file is gone after every error. A temp
  file left by an earlier run stays when the \<^verbatim>\<open>HEAD\<close> request fails, here because the
  context is cancelled: \<open>Download\<close> returns before the lines that remove it.
\<close>

theorem Download_stale_temp_counterexample:
  "(Map.empty(''/snapshots/snapshot-100-a.tar.zst.tmp'' \<mapsto> ''stale''))
      ''/snapshots/snapshot-100-a.tar.zst'' = None \<and>
   fst (Download
      \<lparr>http_Head = HeadDoError (Err ''context canceled''), http_Head_took = 20000000,
        http_Get = GetDoError (Err ''context canceled''),
        http_Get_took = 0, os_Create_err = None, Truncate_err = None, os_Rename_err = None,
        chunk_workers = (\<lambda>ranges delay minSpeed ctx now. (0, [], 0, None)),
        float_below = (\<lambda>b d m. b * 1000000000 < m * d),
        float_speed = (\<lambda>b d. b * 1000000000 div d),
        fmt_1f = (\<lambda>b c. fmt_d (b div c))\<rparr>
      (Some 10000000) ''http://10.0.0.1:8899/snapshot-100-a.tar.zst'' ''/snapshots''
      ''snapshot-100-a.tar.zst''
      \<lparr>MinDownloadSpeedBytes = 0, MinSpeedCheckDelay = 7000000000, DownloadConnections = 8,
        DownloadTimeout = 1800000000000\<rparr>
      (Map.empty(''/snapshots/snapshot-100-a.tar.zst.tmp'' \<mapsto> ''stale''))) =
     Inl (Wrapped ''HEAD request'' (Err ''context canceled'')) \<and>
   snd (Download
      \<lparr>http_Head = HeadDoError (Err ''context canceled''), http_Head_took = 20000000,
        http_Get = GetDoError (Err ''context canceled''),
        http_Get_took = 0, os_Create_err = None, Truncate_err = None, os_Rename_err = None,
        chunk_workers = (\<lambda>ranges delay minSpeed ctx now. (0, [], 0, None)),
        float_below = (\<lambda>b d m. b * 1000000000 < m * d),
        float_speed = (\<lambda>b d. b * 1000000000 div d),
        fmt_1f = (\<lambda>b c. fmt_d (b div c))\<rparr>
      (Some 10000000) ''http://10.0.0.1:8899/snapshot-100-a.tar.zst'' ''/snapshots''
      ''snapshot-100-a.tar.zst''
      \<lparr>MinDownloadSpeedBytes = 0, MinSpeedCheckDelay = 7000000000, DownloadConnections = 8,
        DownloadTimeout = 1800000000000\<rparr>
      (Map.empty(''/snapshots/snapshot-100-a.tar.zst.tmp'' \<mapsto> ''stale'')))
     ''/snapshots/snapshot-100-a.tar.zst.tmp'' = Some ''stale''"
  by (simp add: Download_def filepath_Join_def)
section \<open>Download and the download timeout\<close>

lemma read_loop_DownloadTimeout:
  "read_loop E ctx (opts\<lparr>DownloadTimeout := timeout\<rparr>) start gate t tot content body =
   read_loop E ctx opts start gate t tot content body"
  by (induction body arbitrary: gate t tot content)
    (simp_all add: speed_error_def gate_timer_def Let_def split: read_result.splits)

lemma download_either_DownloadTimeout:
  "download_either E ctx url tempPath n h (opts\<lparr>DownloadTimeout := timeout\<rparr>) fs start =
   download_either E ctx url tempPath n h opts fs start"
  by (simp add: download_either_def downloadSingle_def downloadParallel_def gate_start_def
      read_loop_DownloadTimeout cong: option.case_cong get_result.case_cong if_cong)

text \<open>
  C6. The configured timeout has no effect on a download: whatever the value of
  \<open>DownloadTimeout\<close>, \<open>Download\<close> returns the same result and leaves the same files. No
  deadline is imposed anywhere, so a download that runs past the timeout goes on.
\<close>

theorem Download_ignores_DownloadTimeout:
  "Download E ctx url destDir filename (opts\<lparr>DownloadTimeout := timeout\<rparr>) fs =
   Download E ctx url destDir filename opts fs"
  by (simp add: Download_def download_either_DownloadTimeout cong: head_result.case_cong)

theorem Download_ignores_DownloadTimeout_witness:
  "Download
      \<lparr>http_Head = HeadResponse 6 [], http_Head_took = 20000000,
        http_Get = GetResponse 200
          [\<lparr>read_took = 3600000000000, read_bytes = ''abc'', read_err = ReadNil, write_err = None\<rparr>,
           \<lparr>read_took = 3600000000000, read_bytes = ''def'', read_err = ReadEOF, write_err = None\<rparr>],
        http_Get_took = 30000000, os_Create_err = None, Truncate_err = None, os_Rename_err = None,
        chunk_workers = (\<lambda>ranges delay minSpeed ctx now. (0, [], 0, None)),
        float_below = (\<lambda>b d m. b * 1000000000 < m * d),
        float_speed = (\<lambda>b d. b * 1000000000 div d),
        fmt_1f = (\<lambda>b c. fmt_d (b div c))\<rparr>
      None ''http://10.0.0.1:8899/snapshot-100-a.tar.zst'' ''/snapshots'' ''snapshot-100-a.tar.zst''
      (\<lparr>MinDownloadSpeedBytes = 0, MinSpeedCheckDelay = 7000000000, DownloadConnections = 1,
         DownloadTimeout = 1800000000000\<rparr>\<lparr>DownloadTimeout := 1\<rparr>)
      Map.empty =
   Download
      \<lparr>http_Head = HeadResponse 6 [], http_Head_took = 20000000,
        http_Get = GetResponse 200
          [\<lparr>read_took = 3600000000000, read_bytes = ''abc'', read_err = ReadNil, write_err = None\<rparr>,
           \<lparr>read_took = 3600000000000, read_bytes = ''def'', read_err = ReadEOF, write_err = None\<rparr>],
        http_Get_took = 30000000, os_Create_err = None, Truncate_err = None, os_Rename_err = None,
        chunk_workers = (\<lambda>ranges delay minSpeed ctx now. (0, [], 0, None)),
        float_below = (\<lambda>b d m. b * 1000000000 < m * d),
        float_speed = (\<lambda>b d. b * 1000000000 div d),
        fmt_1f = (\<lambda>b c. fmt_d (b div c))\<rparr>
      None ''http://10.0.0.1:8899/snapshot-100-a.tar.zst'' ''/snapshots'' ''snapshot-100-a.tar.zst''
      \<lparr>MinDownloadSpeedBytes = 0, MinSpeedCheckDelay = 7000000000, DownloadConnections = 1,
        DownloadTimeout = 1800000000000\<rparr>
      Map.empty"
  by (rule Download_ignores_DownloadTimeout)

text \<open>
  A download over one connection whose two reads take an hour each, with a timeout of
  thirty minutes: it is not cancelled and returns its result after two hours.
\<close>

theorem Download_outlives_timeout_counterexample:
  "fst (Download
      \<lparr>http_Head = HeadResponse 6 [], http_Head_took = 20000000,
        http_Get = GetResponse 200
          [\<lparr>read_took = 3600000000000, read_bytes = ''abc'', read_err = ReadNil, write_err = None\<rparr>,
           \<lparr>read_took = 3600000000000, read_bytes = ''def'', read_err = ReadEOF, write_err = None\<rparr>],
        http_Get_took = 30000000, os_Create_err = None, Truncate_err = None, os_Rename_err = None,
        chunk_workers = (\<lambda>ranges delay minSpeed ctx now. (0, [], 0, None)),
        float_below = (\<lambda>b d m. b * 1000000000 < m * d),
        float_speed = (\<lambda>b d. b * 1000000000 div d),
        fmt_1f = (\<lambda>b c. fmt_d (b div c))\<rparr>
      None ''http://10.0.0.1:8899/snapshot-100-a.tar.zst'' ''/snapshots'' ''snapshot-100-a.tar.zst''
      \<lparr>MinDownloadSpeedBytes = 0, MinSpeedCheckDelay = 7000000000, DownloadConnections = 1,
        DownloadTimeout = 1800000000000\<rparr>
      Map.empty) =
     Inr \<lparr>FilePath = ''/snapshots/snapshot-100-a.tar.zst'', Bytes = 6,
          Duration = 7200030000000\<rparr> \<and>
   (1800000000000 :: int) < 7200030000000"
  by code_simp
section \<open>downloadSingle and cancellation\<close>

lemma loop_tops_length: "length (loop_tops E ctx opts start gate t tot body) = Suc (length body)"
  by (induction body arbitrary: gate t tot) simp_all





end
